theory Spec2Isabelle
  imports Complex_Main
begin

section \<open>Data model\<close>

text \<open>
  A JavaScript \<^verbatim>\<open>Error\<close> is represented by its message; a computation that may throw
  returns \<open>string + 'a\<close>, \<open>Inl\<close> carrying the message of the thrown error.
  A \<^verbatim>\<open>Buffer\<close> is a list of bytes; a base64 string is represented by the bytes it encodes.
\<close>

type_synonym bytes = "nat list"

text \<open>One derived variant inside \<^verbatim>\<open>results\<close> (conversion-worker.js, lines 217-228).\<close>

record variant =
  filename :: string
  data :: bytes
  size' :: nat
  format :: string

record preserved =
  hasGPS :: bool
  hasTimestamp :: bool
  dimensions :: string

record results_obj =
  thumbnail :: variant
  fullSize :: variant
  originalSize :: nat
  metadataPreserved :: bool
  preservedMetadata :: preserved

text \<open>
  A job object, and equally the partial objects \<^verbatim>\<open>jobData\<close> and \<^verbatim>\<open>updates\<close>: one
  optional field for each key that the repository ever puts into such an object.
  \<open>None\<close> means that the key is absent.
\<close>

record job =
  id' :: "string option"
  status :: "string option"
  createdAt :: "string option"
  updatedAt :: "string option"
  originalName :: "string option"
  imageData :: "bytes option"
  fileSize :: "nat option"
  requestId :: "string option"
  processingTime :: "int option"
  results :: "results_obj option"
  error :: "string option"

definition no_fields :: job where
  "no_fields = \<lparr> id' = None, status = None, createdAt = None, updatedAt = None,
     originalName = None, imageData = None, fileSize = None, requestId = None,
     processingTime = None, results = None, error = None \<rparr>"

text \<open>Object spread \<^verbatim>\<open>{...a, ...b}\<close>: a key of \<open>b\<close> overrides the same key of \<open>a\<close>.\<close>

definition override :: "'a option \<Rightarrow> 'a option \<Rightarrow> 'a option" where
  "override a b = (case b of None \<Rightarrow> a | Some v \<Rightarrow> Some v)"

definition spread :: "job \<Rightarrow> job \<Rightarrow> job" where
  "spread a b = \<lparr>
     id' = override (id' a) (id' b),
     status = override (status a) (status b),
     createdAt = override (createdAt a) (createdAt b),
     updatedAt = override (updatedAt a) (updatedAt b),
     originalName = override (originalName a) (originalName b),
     imageData = override (imageData a) (imageData b),
     fileSize = override (fileSize a) (fileSize b),
     requestId = override (requestId a) (requestId b),
     processingTime = override (processingTime a) (processingTime b),
     results = override (results a) (results b),
     error = override (error a) (error b) \<rparr>"

text \<open>The queue entry \<^verbatim>\<open>{ jobId }\<close>.\<close>

datatype entry = Entry (jobId: string)

text \<open>
  Values of the tags that the metadata tool returns: numbers (GPS coordinates are decimal
  degrees), strings, and objects such as parsed date-times. A missing property reads as
  \<^verbatim>\<open>undefined\<close>, here \<open>None\<close>.
\<close>

datatype tagval = TNum real | TStr string | TObj string

type_synonym tags = "string \<rightharpoonup> tagval"

text \<open>JavaScript truthiness of a property value.\<close>

fun truthy :: "tagval option \<Rightarrow> bool" where
  "truthy None = False"
| "truthy (Some (TNum x)) = (x \<noteq> 0)"
| "truthy (Some (TStr s)) = (s \<noteq> [])"
| "truthy (Some (TObj s)) = True"

section \<open>The store and the file system\<close>

text \<open>
  Commands that the store has executed, oldest first. The list is kept beside the store's
  contents so that the order of writes can be stated.
\<close>

datatype event =
    EvSet string job nat
  | EvDel string
  | EvLPush string entry
  | EvBRPop string entry

text \<open>
  \<open>kv\<close> holds each record with the expiry (in seconds) it was stored with; the
  serialisation of a record to JSON and back is the identity on the fields of a job.
  A store list is a HOL list whose head is the left end: \<^verbatim>\<open>LPUSH\<close> adds at the head and
  \<^verbatim>\<open>BRPOP\<close> removes the last element. \<open>files\<close> is the file system, \<open>toollog\<close> the calls of
  the metadata writer with the path and the tag object they were given.
\<close>

record world =
  connected :: bool
  kv :: "string \<rightharpoonup> (job \<times> nat)"
  lists :: "string \<Rightarrow> entry list"
  files :: "string \<rightharpoonup> bytes"
  oplog :: "event list"
  toollog :: "(string \<times> (string \<times> tagval option) list) list"

subsection \<open>RedisService (redis-service.js)\<close>

definition isConnected :: "world \<Rightarrow> bool" where
  "isConnected w = connected w"

definition getClient :: "world \<Rightarrow> string + unit" where
  "getClient w = (if \<not> isConnected w then Inl ''Redis client not connected'' else Inr ())"

definition redis_set :: "world \<Rightarrow> string \<Rightarrow> job \<Rightarrow> nat \<Rightarrow> (string + unit) \<times> world" where
  "redis_set w key v ttl =
     (case getClient w of
        Inl e \<Rightarrow> (Inl e, w)
      | Inr _ \<Rightarrow> (Inr (), w\<lparr> kv := (kv w)(key \<mapsto> (v, ttl)),
                             oplog := oplog w @ [EvSet key v ttl] \<rparr>))"

definition redis_get :: "world \<Rightarrow> string \<Rightarrow> (string + job option) \<times> world" where
  "redis_get w key =
     (case getClient w of
        Inl e \<Rightarrow> (Inl e, w)
      | Inr _ \<Rightarrow> (Inr (map_option fst (kv w key)), w))"

definition redis_del :: "world \<Rightarrow> string \<Rightarrow> (string + unit) \<times> world" where
  "redis_del w key =
     (case getClient w of
        Inl e \<Rightarrow> (Inl e, w)
      | Inr _ \<Rightarrow> (Inr (), w\<lparr> kv := (kv w)(key := None), oplog := oplog w @ [EvDel key] \<rparr>))"

definition lpush :: "world \<Rightarrow> string \<Rightarrow> entry \<Rightarrow> (string + unit) \<times> world" where
  "lpush w key v =
     (case getClient w of
        Inl e \<Rightarrow> (Inl e, w)
      | Inr _ \<Rightarrow> (Inr (), w\<lparr> lists := (lists w)(key := v # lists w key),
                             oplog := oplog w @ [EvLPush key v] \<rparr>))"

text \<open>
  \<^verbatim>\<open>brpop(key, timeout)\<close>: the last element of the list, or \<^verbatim>\<open>null\<close> when the list
  stays empty until the timeout.
\<close>

definition brpop :: "world \<Rightarrow> string \<Rightarrow> (string + entry option) \<times> world" where
  "brpop w key =
     (case getClient w of
        Inl e \<Rightarrow> (Inl e, w)
      | Inr _ \<Rightarrow>
          (if lists w key = [] then (Inr None, w)
           else (Inr (Some (last (lists w key))),
                 w\<lparr> lists := (lists w)(key := butlast (lists w key)),
                    oplog := oplog w @ [EvBRPop key (last (lists w key))] \<rparr>)))"

subsection \<open>JobService (job-service.js)\<close>

definition keyPrefix :: string where
  "keyPrefix = ''jpeg2avif:job:''"

definition queueKey :: string where
  "queueKey = ''jpeg2avif:queue''"

text \<open>
  \<^verbatim>\<open>createJob(jobData)\<close>. The fresh identifier \<open>jid\<close> and the two readings of the clock
  \<open>t1\<close>, \<open>t2\<close> are inputs.
\<close>

definition new_job :: "string \<Rightarrow> string \<Rightarrow> string \<Rightarrow> job \<Rightarrow> job" where
  "new_job jid t1 t2 jobData =
     spread (no_fields\<lparr> id' := Some jid, status := Some ''queued'',
                        createdAt := Some t1, updatedAt := Some t2 \<rparr>) jobData"

definition createJob :: "world \<Rightarrow> string \<Rightarrow> string \<Rightarrow> string \<Rightarrow> job \<Rightarrow> (string + job) \<times> world" where
  "createJob w jid t1 t2 jobData =
     (let j = new_job jid t1 t2 jobData in
      if \<not> isConnected w then (Inl ''Redis not connected - cannot create job'', w)
      else
        (case redis_set w (keyPrefix @ jid) j 86400 of
           (Inl e, w1) \<Rightarrow> (Inl (''Failed to create job: '' @ e), w1)
         | (Inr _, w1) \<Rightarrow>
             (case lpush w1 queueKey (Entry jid) of
                (Inl e, w2) \<Rightarrow> (Inl (''Failed to create job: '' @ e), w2)
              | (Inr _, w2) \<Rightarrow> (Inr j, w2))))"

definition getJobStatus :: "world \<Rightarrow> string \<Rightarrow> (string + job option) \<times> world" where
  "getJobStatus w jid =
     (if \<not> isConnected w then (Inl ''Redis not connected - cannot get job status'', w)
      else
        (case redis_get w (keyPrefix @ jid) of
           (Inl e, w1) \<Rightarrow> (Inl (''Failed to get job status: '' @ e), w1)
         | (Inr r, w1) \<Rightarrow> (Inr r, w1)))"

text \<open>
  \<^verbatim>\<open>updateJobStatus(jobId, updates)\<close> awaits the read of the record and then the write.
  \<open>other\<close> is what the other clients of the store do to it between these two awaits;
  \<open>now\<close> is the reading of the clock.
\<close>

definition updated_job :: "job \<Rightarrow> job \<Rightarrow> string \<Rightarrow> job" where
  "updated_job j updates now = (spread j updates)\<lparr> updatedAt := Some now \<rparr>"

definition updateJobStatus_between ::
  "(world \<Rightarrow> world) \<Rightarrow> world \<Rightarrow> string \<Rightarrow> job \<Rightarrow> string \<Rightarrow> (string + job) \<times> world" where
  "updateJobStatus_between other w jid updates now =
     (if \<not> isConnected w then (Inl ''Redis not connected - cannot update job status'', w)
      else
        (case getJobStatus w jid of
           (Inl e, w1) \<Rightarrow> (Inl (''Failed to update job status: '' @ e), w1)
         | (Inr None, w1) \<Rightarrow>
             (Inl (''Failed to update job status: '' @ (''Job '' @ jid @ '' not found'')), w1)
         | (Inr (Some j), w1) \<Rightarrow>
             (let u = updated_job j updates now in
              case redis_set (other w1) (keyPrefix @ jid) u 86400 of
                (Inl e, w2) \<Rightarrow> (Inl (''Failed to update job status: '' @ e), w2)
              | (Inr _, w2) \<Rightarrow> (Inr u, w2))))"

definition updateJobStatus :: "world \<Rightarrow> string \<Rightarrow> job \<Rightarrow> string \<Rightarrow> (string + job) \<times> world" where
  "updateJobStatus = updateJobStatus_between (\<lambda>w. w)"

definition getNextJob :: "world \<Rightarrow> (string + job option) \<times> world" where
  "getNextJob w =
     (if \<not> isConnected w then (Inl ''Redis not connected - cannot get next job'', w)
      else
        (case brpop w queueKey of
           (Inl e, w1) \<Rightarrow> (Inl (''Failed to get next job: '' @ e), w1)
         | (Inr None, w1) \<Rightarrow> (Inr None, w1)
         | (Inr (Some en), w1) \<Rightarrow>
             (case getJobStatus w1 (jobId en) of
                (Inl e, w2) \<Rightarrow> (Inl (''Failed to get next job: '' @ e), w2)
              | (Inr r, w2) \<Rightarrow> (Inr r, w2))))"

definition deleteJob :: "world \<Rightarrow> string \<Rightarrow> (string + unit) \<times> world" where
  "deleteJob w jid =
     (if \<not> isConnected w then (Inl ''Redis not connected - cannot delete job'', w)
      else
        (case redis_del w (keyPrefix @ jid) of
           (Inl e, w1) \<Rightarrow> (Inl (''Failed to delete job: '' @ e), w1)
         | (Inr _, w1) \<Rightarrow> (Inr (), w1)))"

section \<open>The conversion worker (conversion-worker.js)\<close>

subsection \<open>Promises and timeouts\<close>

text \<open>
  \<open>Settles t r\<close> is a promise that settles \<open>t\<close> milliseconds after its creation, fulfilled
  with \<open>v\<close> when \<open>r = Inr v\<close> and rejected with an error of message \<open>m\<close> when \<open>r = Inl m\<close>.
  \<open>Pending\<close> is a promise that never settles; awaiting it never returns.
\<close>

datatype 'a promise = Settles nat "string + 'a" | Pending

definition await :: "'a promise \<Rightarrow> (string + 'a) option" where
  "await p = (case p of Settles t r \<Rightarrow> Some r | Pending \<Rightarrow> None)"

fun show_nat :: "nat \<Rightarrow> string" where
  "show_nat n =
     (if n < 10 then [char_of (48 + n)]
      else show_nat (n div 10) @ [char_of (48 + n mod 10)])"

declare show_nat.simps [simp del]

text \<open>
  \<^verbatim>\<open>withTimeout(promise, timeoutMs, description)\<close> races the promise against a timer.
  A promise that settles exactly when the timer fires is counted as late.
\<close>

definition withTimeout :: "'a promise \<Rightarrow> nat \<Rightarrow> string \<Rightarrow> 'a promise" where
  "withTimeout p timeoutMs description =
     (let late = Settles timeoutMs
                   (Inl (description @ '' timed out after '' @ show_nat timeoutMs @ ''ms''))
      in case p of
           Settles t r \<Rightarrow> if t < timeoutMs then Settles t r else late
         | Pending \<Rightarrow> late)"

text \<open>
  How an asynchronous function ends: it returns a value, it throws an error, or it never
  returns because it awaits a promise that never settles. Each case carries the world in
  which it ends.
\<close>

datatype 'a outcome = Returned 'a world | Threw string world | Hung world

fun world_of :: "'a outcome \<Rightarrow> world" where
  "world_of (Returned v w) = w"
| "world_of (Threw m w) = w"
| "world_of (Hung w) = w"

definition bind_await :: "'a promise \<Rightarrow> world \<Rightarrow> ('a \<Rightarrow> 'b outcome) \<Rightarrow> 'b outcome" where
  "bind_await p w k =
     (case await p of
        None \<Rightarrow> Hung w
      | Some (Inl m) \<Rightarrow> Threw m w
      | Some (Inr v) \<Rightarrow> k v)"

subsection \<open>What the environment decides during one job\<close>

text \<open>
  The readings of the clock, the temporary directory, \<^verbatim>\<open>path.parse(_).name\<close>, the promises
  returned by the metadata tool and the image libraries, and the paths whose removal fails.
  The promise of a metadata write is fulfilled with the new content of the file.
\<close>

record penv =
  startTime :: int
  time_done :: int
  time_failed :: int
  now_processing :: string
  now_completed :: string
  now_failed :: string
  tempDir :: string
  parse_name :: "string \<Rightarrow> string"
  exif_read :: "tags promise"
  jimp_read :: "(nat \<times> nat) promise"
  thumbnail_conv :: "bytes promise"
  fullsize_conv :: "bytes promise"
  exif_write_thumb :: "bytes promise"
  exif_write_full :: "bytes promise"
  unlink_fails :: "string \<Rightarrow> bool"

subsection \<open>File system\<close>

definition path_join :: "string \<Rightarrow> string \<Rightarrow> string" where
  "path_join dir name = dir @ ''/'' @ name"

definition writeFileSync :: "world \<Rightarrow> string \<Rightarrow> bytes \<Rightarrow> world" where
  "writeFileSync w f b = w\<lparr> files := (files w)(f \<mapsto> b) \<rparr>"

definition readFileSync :: "world \<Rightarrow> string \<Rightarrow> string + bytes" where
  "readFileSync w f =
     (case files w f of
        None \<Rightarrow> Inl (''ENOENT: no such file or directory, open '' @ f)
      | Some b \<Rightarrow> Inr b)"

text \<open>
  One round of the \<^verbatim>\<open>forEach\<close> in \<^verbatim>\<open>cleanupTempFiles\<close>: an existing file is unlinked; a
  failing unlink is caught and logged, and the file stays.
\<close>

definition cleanup_file :: "penv \<Rightarrow> string \<Rightarrow> world \<Rightarrow> world" where
  "cleanup_file e f w =
     (if files w f \<noteq> None
      then (if unlink_fails e f then w else w\<lparr> files := (files w)(f := None) \<rparr>)
      else w)"

definition cleanupTempFiles :: "penv \<Rightarrow> string list \<Rightarrow> world \<Rightarrow> world" where
  "cleanupTempFiles e fs w = fold (cleanup_file e) fs w"

subsection \<open>Metadata to preserve and the result object\<close>

definition timestamp_tags :: "tags \<Rightarrow> (string \<times> tagval option) list" where
  "timestamp_tags om =
     (if truthy (om ''DateTimeOriginal'') then [(''DateTimeOriginal'', om ''DateTimeOriginal'')]
      else if truthy (om ''DateTime'') then [(''DateTime'', om ''DateTime'')]
      else if truthy (om ''CreateDate'') then [(''CreateDate'', om ''CreateDate'')]
      else [])"

definition gps_tags :: "tags \<Rightarrow> (string \<times> tagval option) list" where
  "gps_tags om =
     (if truthy (om ''GPSLatitude'') \<and> truthy (om ''GPSLongitude'')
      then [(''GPSLatitude'', om ''GPSLatitude''), (''GPSLongitude'', om ''GPSLongitude''),
            (''GPSLatitudeRef'', om ''GPSLatitudeRef''),
            (''GPSLongitudeRef'', om ''GPSLongitudeRef'')]
      else [])"

text \<open>
  The object \<^verbatim>\<open>metadataToPreserve\<close> as the list of its keys in the order of assignment;
  a key may hold \<^verbatim>\<open>undefined\<close> (\<open>None\<close>).
\<close>

definition metadataToPreserve :: "tags \<Rightarrow> nat \<Rightarrow> nat \<Rightarrow> (string \<times> tagval option) list" where
  "metadataToPreserve om width height =
     [(''ImageWidth'', Some (TNum (real width))), (''ImageHeight'', Some (TNum (real height)))]
     @ timestamp_tags om @ gps_tags om"

definition make_results ::
  "string \<Rightarrow> bytes \<Rightarrow> bytes \<Rightarrow> bytes \<Rightarrow> tags \<Rightarrow> nat \<Rightarrow> nat \<Rightarrow> results_obj" where
  "make_results name finalThumbnailBuffer finalFullSizeBuffer inputBuffer om width height =
     \<lparr> thumbnail = \<lparr> filename = name @ ''_thumb.avif'', data = finalThumbnailBuffer,
                     size' = length finalThumbnailBuffer, format = ''avif'' \<rparr>,
       fullSize = \<lparr> filename = name @ ''.avif'', data = finalFullSizeBuffer,
                    size' = length finalFullSizeBuffer, format = ''avif'' \<rparr>,
       originalSize = length inputBuffer,
       metadataPreserved = True,
       preservedMetadata =
         \<lparr> hasGPS = (truthy (om ''GPSLatitude'') \<and> truthy (om ''GPSLongitude'')),
           hasTimestamp = (truthy (om ''DateTimeOriginal'') \<or> truthy (om ''DateTime'')
                           \<or> truthy (om ''CreateDate'')),
           dimensions = show_nat width @ ''x'' @ show_nat height \<rparr> \<rparr>"

subsection \<open>processJob\<close>

text \<open>\<^verbatim>\<open>${job.id}\<close>: an absent identifier is printed as \<^verbatim>\<open>undefined\<close>.\<close>

definition id_text :: "job \<Rightarrow> string" where
  "id_text j = (case id' j of None \<Rightarrow> ''undefined'' | Some s \<Rightarrow> s)"

text \<open>
  Lines 162-208: both variants are written to their temporary files, the metadata is
  written into each of them under a bound of 10 seconds, the files are read back and the
  temporary files are removed.
\<close>

definition attach ::
  "penv \<Rightarrow> bytes \<Rightarrow> string \<Rightarrow> string list \<Rightarrow> tags \<Rightarrow> nat \<times> nat \<Rightarrow> bytes \<Rightarrow> bytes \<Rightarrow> world
     \<Rightarrow> results_obj outcome" where
  "attach e inputBuffer name temps om dims thumbnailBuffer fullSizeBuffer w =
     (let tempThumb = temps ! 1; tempFull = temps ! 2;
          w1 = writeFileSync (writeFileSync w tempThumb thumbnailBuffer) tempFull fullSizeBuffer;
          mtp = metadataToPreserve om (fst dims) (snd dims);
          w2 = w1\<lparr> toollog := toollog w1 @ [(tempThumb, mtp)] \<rparr>
      in bind_await (withTimeout (exif_write_thumb e) 10000 ''Thumbnail metadata copy'') w2
           (\<lambda>b1.
              let w3 = w2\<lparr> files := (files w2)(tempThumb \<mapsto> b1),
                           toollog := toollog w2 @ [(tempFull, mtp)] \<rparr>
              in bind_await (withTimeout (exif_write_full e) 10000 ''Full-size metadata copy'') w3
                   (\<lambda>b2.
                      let w4 = w3\<lparr> files := (files w3)(tempFull \<mapsto> b2) \<rparr>
                      in case readFileSync w4 tempThumb of
                           Inl m \<Rightarrow> Threw m w4
                         | Inr finalThumbnailBuffer \<Rightarrow>
                             (case readFileSync w4 tempFull of
                                Inl m \<Rightarrow> Threw m w4
                              | Inr finalFullSizeBuffer \<Rightarrow>
                                  Returned
                                    (make_results name finalThumbnailBuffer finalFullSizeBuffer
                                       inputBuffer om (fst dims) (snd dims))
                                    (cleanupTempFiles e temps w4)))))"

text \<open>
  Lines 100-208. \<open>temps\<close> is \<^verbatim>\<open>[tempOriginal, tempThumb, tempFull]\<close>. The metadata read and
  the decoding are awaited as they are; the two conversions are awaited under their bounds.
\<close>

definition stages ::
  "penv \<Rightarrow> bytes \<Rightarrow> string \<Rightarrow> string list \<Rightarrow> world \<Rightarrow> results_obj outcome" where
  "stages e inputBuffer name temps w =
     (let w1 = writeFileSync w (temps ! 0) inputBuffer
      in case await (exif_read e) of
           None \<Rightarrow> Hung w1
         | Some (Inl m) \<Rightarrow> Threw (''Metadata extraction failed: '' @ m) w1
         | Some (Inr om) \<Rightarrow>
             bind_await (jimp_read e) w1
               (\<lambda>dims.
                  bind_await (withTimeout (thumbnail_conv e) 30000 ''Thumbnail conversion'') w1
                    (\<lambda>thumbnailBuffer.
                       bind_await (withTimeout (fullsize_conv e) 60000 ''Full-size conversion'') w1
                         (\<lambda>fullSizeBuffer.
                            attach e inputBuffer name temps om dims
                              thumbnailBuffer fullSizeBuffer w1))))"

text \<open>
  The inner \<^verbatim>\<open>try\<close> (lines 99-249): the stages, then the update that completes the job; an
  error thrown by either is caught, the temporary files are removed and the error is
  thrown again.
\<close>

definition completed_update :: "penv \<Rightarrow> results_obj \<Rightarrow> job" where
  "completed_update e res =
     no_fields\<lparr> status := Some ''completed'',
                processingTime := Some (time_done e - startTime e),
                results := Some res \<rparr>"

definition pipeline :: "penv \<Rightarrow> job \<Rightarrow> bytes \<Rightarrow> string \<Rightarrow> string list \<Rightarrow> world \<Rightarrow> unit outcome" where
  "pipeline e j inputBuffer name temps w =
     (case stages e inputBuffer name temps w of
        Hung w1 \<Rightarrow> Hung w1
      | Threw m w1 \<Rightarrow> Threw m (cleanupTempFiles e temps w1)
      | Returned res w1 \<Rightarrow>
          (case updateJobStatus w1 (id_text j) (completed_update e res) (now_completed e) of
             (Inl m, w2) \<Rightarrow> Threw m (cleanupTempFiles e temps w2)
           | (Inr _, w2) \<Rightarrow> Returned () w2))"

definition temp_paths :: "penv \<Rightarrow> job \<Rightarrow> string \<Rightarrow> string list" where
  "temp_paths e j name =
     [path_join (tempDir e) (id_text j @ ''_original.jpg''),
      path_join (tempDir e) (id_text j @ ''_'' @ name @ ''_thumb.avif''),
      path_join (tempDir e) (id_text j @ ''_'' @ name @ ''.avif'')]"

text \<open>
  The outer \<^verbatim>\<open>try\<close> (lines 69-249). \<^verbatim>\<open>Buffer.from\<close> and \<^verbatim>\<open>path.parse\<close> throw a
  \<^verbatim>\<open>TypeError\<close> when the field they are given is absent; the wording of these two
  messages is abbreviated. Creating the temporary directory is not represented.
\<close>

definition processing_update :: job where
  "processing_update = no_fields\<lparr> status := Some ''processing'' \<rparr>"

definition processJob_try :: "penv \<Rightarrow> job \<Rightarrow> world \<Rightarrow> unit outcome" where
  "processJob_try e j w =
     (case updateJobStatus w (id_text j) processing_update (now_processing e) of
        (Inl m, w1) \<Rightarrow> Threw m w1
      | (Inr _, w1) \<Rightarrow>
          (case imageData j of
             None \<Rightarrow> Threw ''The first argument must be of type string. Received undefined'' w1
           | Some inputBuffer \<Rightarrow>
               (case originalName j of
                  None \<Rightarrow> Threw ''The path argument must be of type string. Received undefined'' w1
                | Some fullName \<Rightarrow>
                    pipeline e j inputBuffer (parse_name e fullName)
                      (temp_paths e j (parse_name e fullName)) w1)))"

definition failed_update :: "penv \<Rightarrow> string \<Rightarrow> job" where
  "failed_update e m =
     no_fields\<lparr> status := Some ''failed'', error := Some m,
                processingTime := Some (time_failed e - startTime e) \<rparr>"

definition processJob :: "penv \<Rightarrow> job \<Rightarrow> world \<Rightarrow> unit outcome" where
  "processJob e j w =
     (case processJob_try e j w of
        Returned u w1 \<Rightarrow> Returned u w1
      | Hung w1 \<Rightarrow> Hung w1
      | Threw m w1 \<Rightarrow>
          (case updateJobStatus w1 (id_text j) (failed_update e m) (now_failed e) of
             (Inl m2, w2) \<Rightarrow> Threw m2 w2
           | (Inr _, w2) \<Rightarrow> Returned () w2))"

subsection \<open>The worker loop\<close>

text \<open>The body of the \<^verbatim>\<open>try\<close> inside the loop of \<^verbatim>\<open>start\<close>, and one round of the loop.\<close>

definition iteration_try :: "penv \<Rightarrow> world \<Rightarrow> unit outcome" where
  "iteration_try e w =
     (case getNextJob w of
        (Inl m, w1) \<Rightarrow> Threw m w1
      | (Inr None, w1) \<Rightarrow> Returned () w1
      | (Inr (Some j), w1) \<Rightarrow> processJob e j w1)"

definition iteration :: "penv \<Rightarrow> world \<Rightarrow> unit outcome" where
  "iteration e w =
     (case iteration_try e w of
        Threw m w1 \<Rightarrow> Returned () w1
      | Returned u w1 \<Rightarrow> Returned u w1
      | Hung w1 \<Rightarrow> Hung w1)"

text \<open>
  \<^verbatim>\<open>start()\<close>: the loop runs one round for each element of the list, which gives the
  environment of that round; the end of the list is the moment at which \<^verbatim>\<open>stop()\<close> has
  cleared \<^verbatim>\<open>isRunning\<close>.
\<close>

fun start :: "penv list \<Rightarrow> world \<Rightarrow> unit outcome" where
  "start [] w = Returned () w"
| "start (e # es) w =
     (case iteration e w of
        Returned u w1 \<Rightarrow> start es w1
      | Threw m w1 \<Rightarrow> Threw m w1
      | Hung w1 \<Rightarrow> Hung w1)"

section \<open>The routes of server.js and runs of the system\<close>

text \<open>The object that \<^verbatim>\<open>POST /convert\<close> passes to \<^verbatim>\<open>createJob\<close> (server.js, lines 533-538).\<close>

definition route_jobData :: "string \<Rightarrow> bytes \<Rightarrow> nat \<Rightarrow> string \<Rightarrow> job" where
  "route_jobData name buffer sz rid =
     no_fields\<lparr> originalName := Some name, imageData := Some buffer,
                fileSize := Some sz, requestId := Some rid \<rparr>"

text \<open>
  \<^verbatim>\<open>POST /convert\<close>: the HTTP status and, on success, the created job.
  \<open>file\<close> is the uploaded file with its name, content and size, if there is one.
\<close>

definition convert_route ::
  "world \<Rightarrow> (string \<times> bytes \<times> nat) option \<Rightarrow> string \<Rightarrow> string \<Rightarrow> string \<Rightarrow> string
     \<Rightarrow> (nat \<times> job option) \<times> world" where
  "convert_route w file rid jid t1 t2 =
     (case file of
        None \<Rightarrow> ((400, None), w)
      | Some (name, buffer, sz) \<Rightarrow>
          if \<not> isConnected w then ((503, None), w)
          else (case createJob w jid t1 t2 (route_jobData name buffer sz rid) of
                  (Inl m, w1) \<Rightarrow> ((500, None), w1)
                | (Inr j, w1) \<Rightarrow> ((200, Some j), w1)))"

text \<open>\<^verbatim>\<open>GET /status/:jobId\<close>: the HTTP status and, on success, the record that is shown.\<close>

definition status_route :: "world \<Rightarrow> string \<Rightarrow> nat \<times> job option" where
  "status_route w jid =
     (if \<not> isConnected w then (503, None)
      else (case getJobStatus w jid of
              (Inl m, w1) \<Rightarrow> (500, None)
            | (Inr None, w1) \<Rightarrow> (404, None)
            | (Inr (Some j), w1) \<Rightarrow> (200, Some j)))"

text \<open>The records written under a key, oldest first.\<close>

fun writes_of :: "string \<Rightarrow> event list \<Rightarrow> job list" where
  "writes_of key [] = []"
| "writes_of key (EvSet k j ttl # evs) =
     (if k = key then j # writes_of key evs else writes_of key evs)"
| "writes_of key (EvDel k # evs) = writes_of key evs"
| "writes_of key (EvLPush k en # evs) = writes_of key evs"
| "writes_of key (EvBRPop k en # evs) = writes_of key evs"

text \<open>
  What happens to the system, one action after the other: a request to \<^verbatim>\<open>POST /convert\<close>,
  a round of the worker loop, the expiry of a record in the store, and the connection to
  the store going down or coming back.
\<close>

datatype action =
    Convert "(string \<times> bytes \<times> nat) option" string string string string
  | Work penv
  | Expire string
  | Connection bool

fun step :: "action \<Rightarrow> world \<Rightarrow> world" where
  "step (Convert file rid jid t1 t2) w = snd (convert_route w file rid jid t1 t2)"
| "step (Work e) w = world_of (iteration e w)"
| "step (Expire k) w = w\<lparr> kv := (kv w)(k := None) \<rparr>"
| "step (Connection b) w = w\<lparr> connected := b \<rparr>"

text \<open>An identifier made by \<^verbatim>\<open>uuidv4()\<close> has not been used before.\<close>

fun allowed :: "action \<Rightarrow> world \<Rightarrow> bool" where
  "allowed (Convert file rid jid t1 t2) w = (writes_of (keyPrefix @ jid) (oplog w) = [])"
| "allowed (Work e) w = True"
| "allowed (Expire k) w = True"
| "allowed (Connection b) w = True"

fun run :: "action list \<Rightarrow> world \<Rightarrow> world" where
  "run [] w = w"
| "run (a # as) w = run as (step a w)"

fun valid :: "action list \<Rightarrow> world \<Rightarrow> bool" where
  "valid [] w = True"
| "valid (a # as) w = (allowed a w \<and> valid as (step a w))"

definition world0 :: world where
  "world0 = \<lparr> connected = True, kv = Map.empty, lists = (\<lambda>k. []), files = Map.empty,
              oplog = [], toollog = [] \<rparr>"



section \<open>Notions used in the statements\<close>

text \<open>
  An asynchronous function has not returned and never will.
\<close>

fun hung :: "'a outcome \<Rightarrow> bool" where
  "hung (Hung w) = True"
| "hung (Returned v w) = False"
| "hung (Threw m w) = False"

text \<open>
  A promise takes longer than \<open>ms\<close> milliseconds or never settles; a promise is fulfilled;
  a promise is fulfilled in less than \<open>ms\<close> milliseconds.
\<close>

definition exceeds :: "'a promise \<Rightarrow> nat \<Rightarrow> bool" where
  "exceeds p ms = (case p of Pending \<Rightarrow> True | Settles t r \<Rightarrow> ms < t)"

definition fulfilled :: "'a promise \<Rightarrow> bool" where
  "fulfilled p = (case p of Pending \<Rightarrow> False | Settles t r \<Rightarrow> \<not> isl r)"

definition fulfilled_within :: "'a promise \<Rightarrow> nat \<Rightarrow> bool" where
  "fulfilled_within p ms = (case p of Pending \<Rightarrow> False | Settles t r \<Rightarrow> \<not> isl r \<and> t < ms)"

text \<open>
  \<^verbatim>\<open>processJob\<close> returns, and the record of the job is then \<^verbatim>\<open>failed\<close> with the given
  error message and has no results.
\<close>

definition job_failed_with :: "penv \<Rightarrow> job \<Rightarrow> world \<Rightarrow> string \<Rightarrow> bool" where
  "job_failed_with e j w msg =
     (case processJob e j w of
        Returned u w' \<Rightarrow>
          (case kv w' (keyPrefix @ id_text j) of
             None \<Rightarrow> False
           | Some (r, ttl) \<Rightarrow>
               status r = Some ''failed'' \<and> error r = Some msg \<and> results r = None)
      | Threw m w' \<Rightarrow> False
      | Hung w' \<Rightarrow> False)"

text \<open>
  Staging begins in \<^verbatim>\<open>processJob\<close> when the update to \<^verbatim>\<open>processing\<close> has succeeded and
  \<^verbatim>\<open>Buffer.from\<close> and \<^verbatim>\<open>path.parse\<close> have not thrown; the temporary paths of a job.
\<close>

definition staged :: "penv \<Rightarrow> job \<Rightarrow> world \<Rightarrow> bool" where
  "staged e j w =
     (\<not> isl (fst (updateJobStatus w (id_text j) processing_update (now_processing e))) \<and>
      imageData j \<noteq> None \<and> originalName j \<noteq> None)"

definition job_temp_paths :: "penv \<Rightarrow> job \<Rightarrow> string list" where
  "job_temp_paths e j =
     (case originalName j of
        None \<Rightarrow> []
      | Some fullName \<Rightarrow> temp_paths e j (parse_name e fullName))"

text \<open>
  The sequences of statuses that the state machine allows, and the mutual exclusion of
  \<^verbatim>\<open>results\<close> and \<^verbatim>\<open>error\<close> in a record.
\<close>

definition lifecycle :: "string option list \<Rightarrow> bool" where
  "lifecycle ss =
     (ss = [] \<or> ss = [Some ''queued''] \<or> ss = [Some ''queued'', Some ''processing''] \<or>
      ss = [Some ''queued'', Some ''processing'', Some ''completed''] \<or>
      ss = [Some ''queued'', Some ''processing'', Some ''failed''])"

definition exclusive :: "job \<Rightarrow> bool" where
  "exclusive j =
     ((results j \<noteq> None) = (status j = Some ''completed'') \<and>
      (error j \<noteq> None) = (status j = Some ''failed''))"

text \<open>
  Another client of the store deletes the record of a job.
\<close>

definition deleted_by_other :: "string \<Rightarrow> world \<Rightarrow> world" where
  "deleted_by_other jid w = snd (deleteJob w jid)"

section \<open>Notions used in the proofs\<close>

text \<open>
  Two worlds agree on the store, and the world after a list of records has been written
  under one key with the expiry of 24 hours.
\<close>

definition same_store :: "world \<Rightarrow> world \<Rightarrow> bool" where
  "same_store w' w = (connected w' = connected w \<and> kv w' = kv w \<and> lists w' = lists w \<and>
     oplog w' = oplog w)"

definition store_after :: "world \<Rightarrow> string \<Rightarrow> job list \<Rightarrow> world" where
  "store_after w k js =
     w\<lparr> kv := (kv w)(k \<mapsto> (last js, 86400)),
        oplog := oplog w @ map (\<lambda>x. EvSet k x 86400) js \<rparr>"

text \<open>
  The invariant of the system. The \<open>n\<close>-th record written under the key of a job is
  the queued record, the processing record, or a terminal record; a fourth record is never
  written. A record in the store is the last one written under its key; a job in the queue
  has been written exactly once; no job is in the queue twice.
\<close>

definition rec_ok :: "string \<Rightarrow> nat \<Rightarrow> job \<Rightarrow> bool" where
  "rec_ok k n j =
     (map_option ((@) keyPrefix) (id' j) = Some k \<and>
      (if n = 0 then status j = Some ''queued'' \<and> results j = None \<and> error j = None
       else if n = 1 then status j = Some ''processing'' \<and> results j = None \<and> error j = None
       else if n = 2 then
         (status j = Some ''completed'' \<and> results j \<noteq> None \<and> error j = None) \<or>
         (status j = Some ''failed'' \<and> results j = None \<and> error j \<noteq> None)
       else False))"

fun history_from :: "string \<Rightarrow> nat \<Rightarrow> job list \<Rightarrow> bool" where
  "history_from k n [] = True"
| "history_from k n (j # js) = (rec_ok k n j \<and> history_from k (Suc n) js)"

definition sys_inv :: "world \<Rightarrow> bool" where
  "sys_inv w =
     ((\<forall>k j t. kv w k = Some (j, t) \<longrightarrow>
         writes_of k (oplog w) \<noteq> [] \<and> j = last (writes_of k (oplog w))) \<and>
      (\<forall>k. history_from k 0 (writes_of k (oplog w))) \<and>
      (\<forall>jid. Entry jid \<in> set (lists w queueKey) \<longrightarrow>
         length (writes_of (keyPrefix @ jid) (oplog w)) = 1) \<and>
      distinct (lists w queueKey))"

section \<open>Concrete inputs\<close>

text \<open>
  An environment in which every stage succeeds quickly, and variants of it: the metadata
  read never settles, takes an hour, or fails; the thumbnail conversion takes 45 seconds;
  no removal of a file succeeds, alone and together with a failing metadata read;
  the metadata of the original holds a latitude of 0.
\<close>

definition env_ok :: penv where
  "env_ok = \<lparr> startTime = 1000, time_done = 1500, time_failed = 1400,
     now_processing = ''t3'', now_completed = ''t4'', now_failed = ''t5'',
     tempDir = ''/app/temp'', parse_name = takeWhile (\<lambda>c. c \<noteq> CHR ''.''),
     exif_read = Settles 20 (Inr Map.empty), jimp_read = Settles 30 (Inr (4000, 3000)),
     thumbnail_conv = Settles 500 (Inr [7]), fullsize_conv = Settles 900 (Inr [8, 9]),
     exif_write_thumb = Settles 50 (Inr [7, 1]), exif_write_full = Settles 50 (Inr [8, 9, 1]),
     unlink_fails = (\<lambda>p. False) \<rparr>"

definition env_exif_never :: penv where
  "env_exif_never = env_ok\<lparr> exif_read := Pending \<rparr>"

definition env_exif_slow :: penv where
  "env_exif_slow = env_ok\<lparr> exif_read := Settles 3600000 (Inr Map.empty) \<rparr>"

definition env_exif_fails :: penv where
  "env_exif_fails = env_ok\<lparr> exif_read := Settles 20 (Inl ''File not found'') \<rparr>"

definition env_thumb_slow :: penv where
  "env_thumb_slow = env_ok\<lparr> thumbnail_conv := Settles 45000 (Inr [7]) \<rparr>"

definition env_unlink_fails :: penv where
  "env_unlink_fails = env_ok\<lparr> unlink_fails := (\<lambda>p. True) \<rparr>"

definition env_exif_fails_unlink_fails :: penv where
  "env_exif_fails_unlink_fails = env_exif_fails\<lparr> unlink_fails := (\<lambda>p. True) \<rparr>"

definition om_equator :: tags where
  "om_equator = [''GPSLatitude'' \<mapsto> TNum 0, ''GPSLongitude'' \<mapsto> TNum 36.8,
                 ''GPSLatitudeRef'' \<mapsto> TStr ''N'', ''GPSLongitudeRef'' \<mapsto> TStr ''E'']"

definition env_equator :: penv where
  "env_equator = env_ok\<lparr> exif_read := Settles 20 (Inr om_equator) \<rparr>"

text \<open>
  A job as \<^verbatim>\<open>POST /convert\<close> creates it, the world after its creation in the empty
  store, the world after the creation of two jobs, the run that creates and then
  processes a job, and the world after that run.
\<close>

definition job1 :: job where
  "job1 = new_job ''j1'' ''t1'' ''t2'' (route_jobData ''a.jpg'' [1, 2, 3] 3 ''r1'')"

definition world1 :: world where
  "world1 = snd (createJob world0 ''j1'' ''t1'' ''t2'' (route_jobData ''a.jpg'' [1, 2, 3] 3 ''r1''))"

definition world2 :: world where
  "world2 = run [Convert (Some (''a.jpg'', [1, 2, 3], 3)) ''r1'' ''j1'' ''t1'' ''t2'',
                 Convert (Some (''b.jpg'', [4, 5], 2)) ''r2'' ''j2'' ''t6'' ''t7''] world0"

definition acts1 :: "action list" where
  "acts1 = [Convert (Some (''a.jpg'', [1, 2, 3], 3)) ''r1'' ''j1'' ''t1'' ''t2'', Work env_ok]"

definition world_done :: world where
  "world_done = run acts1 world0"

section \<open>Basic facts\<close>

lemmas redis_defs = isConnected_def getClient_def redis_set_def redis_get_def redis_del_def
  lpush_def brpop_def

lemmas jobsvc_defs = createJob_def getJobStatus_def updateJobStatus_between_def
  updateJobStatus_def getNextJob_def deleteJob_def

lemma override_simps [simp]:
  "override a None = a" "override a (Some v) = Some v" "override None b = b"
  by (simp_all add: override_def split: option.splits)

subsection \<open>The queue\<close>



subsection \<open>What processJob does to the store\<close>

lemma same_store_refl [simp]: "same_store w w"
  by (simp add: same_store_def)

lemma same_store_trans: "same_store w2 w1 \<Longrightarrow> same_store w1 w \<Longrightarrow> same_store w2 w"
  by (simp add: same_store_def)

lemma updateJobStatus_present:
  "connected w \<Longrightarrow> kv w (keyPrefix @ jid) = Some (j, t) \<Longrightarrow>
     updateJobStatus w jid u now =
       (Inr (updated_job j u now),
        w\<lparr> kv := (kv w)(keyPrefix @ jid \<mapsto> (updated_job j u now, 86400)),
           oplog := oplog w @ [EvSet (keyPrefix @ jid) (updated_job j u now) 86400] \<rparr>)"
  by (simp add: jobsvc_defs redis_defs Let_def)

lemma cleanup_file_same_store [simp]: "same_store (cleanup_file e f w) w"
  by (simp add: cleanup_file_def same_store_def)

lemma cleanupTempFiles_same_store [simp]: "same_store (cleanupTempFiles e fs w) w"
  unfolding cleanupTempFiles_def
proof (induction fs arbitrary: w)
  case Nil
  then show ?case by simp
next
  case (Cons f fs)
  have "same_store (fold (cleanup_file e) fs (cleanup_file e f w)) (cleanup_file e f w)"
    by (rule Cons.IH)
  then show ?case using same_store_trans by fastforce
qed

lemma attach_same_store:
  "same_store w1 w \<Longrightarrow> same_store (world_of (attach e ib name temps om dims tb fb w1)) w"
  using cleanupTempFiles_same_store[of e temps]
  by (auto simp add: attach_def bind_await_def Let_def writeFileSync_def readFileSync_def same_store_def
      split: option.splits sum.splits)

lemma stages_same_store: "same_store (world_of (stages e ib name temps w)) w"
proof -
  have w1: "same_store (writeFileSync w (temps ! 0) ib) w"
    by (simp add: writeFileSync_def same_store_def)
  show ?thesis
    using w1 attach_same_store[OF w1]
    by (auto simp add: stages_def bind_await_def Let_def split: option.splits sum.splits)
qed

lemma update_same_store:
  assumes "same_store w' w" "connected w" "kv w (keyPrefix @ jid) = Some (j, t)"
  shows "\<exists>w''. updateJobStatus w' jid u now = (Inr (updated_job j u now), w'') \<and>
           same_store w'' (store_after w (keyPrefix @ jid) [updated_job j u now]) \<and>
           files w'' = files w' \<and> toollog w'' = toollog w'"
proof -
  have c: "connected w'" and k: "kv w' (keyPrefix @ jid) = Some (j, t)"
    using assms by (simp_all add: same_store_def)
  show ?thesis
    using updateJobStatus_present[OF c k, of u now] assms(1)
    by (simp add: same_store_def store_after_def)
qed

lemma store_after_append:
  "js \<noteq> [] \<Longrightarrow> js' \<noteq> [] \<Longrightarrow> same_store w' (store_after w k js) \<Longrightarrow>
     same_store w'' (store_after w' k js') \<Longrightarrow> same_store w'' (store_after w k (js @ js'))"
  by (simp add: same_store_def store_after_def)

lemma pipeline_store:
  assumes "connected w" "kv w (keyPrefix @ id_text j) = Some (j1, t)"
  shows "(\<exists>w'. pipeline e j ib name temps w = Hung w' \<and> same_store w' w)
       \<or> (\<exists>m w'. pipeline e j ib name temps w = Threw m w' \<and> same_store w' w)
       \<or> (\<exists>res w'. pipeline e j ib name temps w = Returned () w' \<and>
             same_store w' (store_after w (keyPrefix @ id_text j)
                [updated_job j1 (completed_update e res) (now_completed e)]))"
proof (cases "stages e ib name temps w")
  case (Returned res w1)
  then have s: "same_store w1 w" using stages_same_store[of e ib name temps w] by simp
  from update_same_store[OF s assms, of "completed_update e res" "now_completed e"]
  show ?thesis using Returned by (auto simp: pipeline_def)
next
  case (Threw m w1)
  then have s: "same_store w1 w" using stages_same_store[of e ib name temps w] by simp
  have "same_store (cleanupTempFiles e temps w1) w"
    using same_store_trans[OF cleanupTempFiles_same_store s] .
  then show ?thesis using Threw by (simp add: pipeline_def)
next
  case (Hung w1)
  then have s: "same_store w1 w" using stages_same_store[of e ib name temps w] by simp
  then show ?thesis using Hung by (simp add: pipeline_def)
qed

lemma processJob_try_store:
  assumes "connected w" "kv w (keyPrefix @ id_text j) = Some (j0, t)"
  shows "case processJob_try e j w of
           Hung w' \<Rightarrow>
             same_store w' (store_after w (keyPrefix @ id_text j)
               [updated_job j0 processing_update (now_processing e)])
         | Threw m w' \<Rightarrow>
             same_store w' (store_after w (keyPrefix @ id_text j)
               [updated_job j0 processing_update (now_processing e)])
         | Returned u w' \<Rightarrow>
             (\<exists>res. same_store w' (store_after w (keyPrefix @ id_text j)
                [updated_job j0 processing_update (now_processing e),
                 updated_job (updated_job j0 processing_update (now_processing e))
                   (completed_update e res) (now_completed e)]))"
proof -
  let ?k = "keyPrefix @ id_text j"
  let ?j1 = "updated_job j0 processing_update (now_processing e)"
  obtain w1 where u1: "updateJobStatus w (id_text j) processing_update (now_processing e) = (Inr ?j1, w1)"
    and s1: "same_store w1 (store_after w ?k [?j1])"
    using update_same_store[OF same_store_refl assms] by blast
  have c1: "connected w1" and k1: "kv w1 ?k = Some (?j1, 86400)"
    using s1 assms(1) by (simp_all add: same_store_def store_after_def)
  show ?thesis
  proof (cases "imageData j")
    case None
    then show ?thesis using u1 s1 by (simp add: processJob_try_def)
  next
    case (Some ib)
    note ib = this
    show ?thesis
    proof (cases "originalName j")
      case None
      then show ?thesis using u1 ib s1 by (simp add: processJob_try_def)
    next
      case (Some fullName)
      let ?p = "pipeline e j ib (parse_name e fullName) (temp_paths e j (parse_name e fullName)) w1"
      have t: "processJob_try e j w = ?p"
        using u1 ib Some by (simp add: processJob_try_def)
      from pipeline_store[OF c1 k1, of e ib "parse_name e fullName" "temp_paths e j (parse_name e fullName)"]
      consider (h) w' where "?p = Hung w'" "same_store w' w1"
        | (t) m w' where "?p = Threw m w'" "same_store w' w1"
        | (r) res w' where "?p = Returned () w'"
            "same_store w' (store_after w1 ?k [updated_job ?j1 (completed_update e res) (now_completed e)])"
        by blast
      then show ?thesis
      proof cases
        case h
        then show ?thesis unfolding t using same_store_trans[OF h(2) s1] by simp
      next
        case t
        then show ?thesis unfolding \<open>processJob_try e j w = ?p\<close> using same_store_trans[OF t(2) s1] by simp
      next
        case r
        have "same_store w' (store_after w ?k [?j1, updated_job ?j1 (completed_update e res) (now_completed e)])"
          using store_after_append[OF _ _ s1 r(2)] by simp
        then show ?thesis unfolding \<open>processJob_try e j w = ?p\<close> using r(1) by auto
      qed
    qed
  qed
qed

lemma processJob_failure_recorded:
  assumes "connected w" "kv w (keyPrefix @ id_text j) = Some (j0, t)"
    "processJob_try e j w = Threw m w1"
  shows "\<exists>w'. processJob e j w = Returned () w' \<and>
           same_store w' (store_after w (keyPrefix @ id_text j)
             [updated_job j0 processing_update (now_processing e),
              updated_job (updated_job j0 processing_update (now_processing e))
                (failed_update e m) (now_failed e)]) \<and>
           files w' = files w1 \<and> toollog w' = toollog w1"
proof -
  let ?k = "keyPrefix @ id_text j"
  let ?j1 = "updated_job j0 processing_update (now_processing e)"
  let ?w1 = "store_after w ?k [?j1]"
  have s1: "same_store w1 ?w1"
    using processJob_try_store[OF assms(1,2), of e] assms(3) by simp
  have c1: "connected ?w1" and k1: "kv ?w1 ?k = Some (?j1, 86400)"
    using assms(1) by (simp_all add: store_after_def)
  obtain w3 where u: "updateJobStatus w1 (id_text j) (failed_update e m) (now_failed e)
         = (Inr (updated_job ?j1 (failed_update e m) (now_failed e)), w3)"
    and s3: "same_store w3 (store_after ?w1 ?k [updated_job ?j1 (failed_update e m) (now_failed e)])"
    and f3: "files w3 = files w1" "toollog w3 = toollog w1"
    using update_same_store[OF s1 c1 k1] by blast
  have "same_store w3 (store_after w ?k ([?j1] @ [updated_job ?j1 (failed_update e m) (now_failed e)]))"
    by (rule store_after_append[OF _ _ same_store_refl s3]) simp_all
  then show ?thesis using u f3 assms(3) by (simp add: processJob_def)
qed

lemma processJob_store:
  assumes "connected w" "kv w (keyPrefix @ id_text j) = Some (j0, t)"
  shows "(\<exists>w'. processJob e j w = Hung w' \<and>
            same_store w' (store_after w (keyPrefix @ id_text j)
               [updated_job j0 processing_update (now_processing e)]))
       \<or> (\<exists>res w'. processJob e j w = Returned () w' \<and>
            same_store w' (store_after w (keyPrefix @ id_text j)
               [updated_job j0 processing_update (now_processing e),
                updated_job (updated_job j0 processing_update (now_processing e))
                  (completed_update e res) (now_completed e)]))
       \<or> (\<exists>m w1 w'. processJob_try e j w = Threw m w1 \<and> processJob e j w = Returned () w' \<and>
            same_store w' (store_after w (keyPrefix @ id_text j)
               [updated_job j0 processing_update (now_processing e),
                updated_job (updated_job j0 processing_update (now_processing e))
                  (failed_update e m) (now_failed e)]))"
proof (cases "processJob_try e j w")
  case (Returned u w')
  then show ?thesis using processJob_try_store[OF assms, of e] by (auto simp: processJob_def)
next
  case (Threw m w1)
  then show ?thesis using processJob_failure_recorded[OF assms Threw] by blast
next
  case (Hung w')
  then show ?thesis using processJob_try_store[OF assms, of e] by (auto simp: processJob_def)
qed

subsection \<open>The invariant of the system\<close>

lemma writes_of_append: "writes_of k (xs @ ys) = writes_of k xs @ writes_of k ys"
proof (induction xs)
  case Nil
  then show ?case by simp
next
  case (Cons x xs)
  then show ?case by (cases x) auto
qed

lemma writes_of_sets:
  "writes_of k (map (\<lambda>x. EvSet k' x ttl) js) = (if k' = k then js else [])"
  by (induction js) auto

lemma inv_same_store: "same_store w' w \<Longrightarrow> sys_inv w' = sys_inv w"
  by (simp add: same_store_def sys_inv_def)

lemma inv_world0: "sys_inv world0"
  by (simp add: sys_inv_def world0_def)

lemma inv_expire: "sys_inv w \<Longrightarrow> sys_inv (w\<lparr> kv := (kv w)(k := None) \<rparr>)"
  by (simp add: sys_inv_def)

lemma inv_connection: "sys_inv w \<Longrightarrow> sys_inv (w\<lparr> connected := b \<rparr>)"
  by (simp add: sys_inv_def)

lemma new_job_route_ok:
  "rec_ok (keyPrefix @ jid) 0 (new_job jid t1 t2 (route_jobData name buffer sz rid))"
  by (simp add: rec_ok_def new_job_def route_jobData_def spread_def no_fields_def)

lemma inv_convert:
  assumes "sys_inv w" "writes_of (keyPrefix @ jid) (oplog w) = []"
  shows "sys_inv (snd (convert_route w file rid jid t1 t2))"
proof (cases "file")
  case None
  then show ?thesis using assms by (simp add: convert_route_def)
next
  case (Some f)
  obtain name buffer sz where f: "f = (name, buffer, sz)" by (cases f) auto
  show ?thesis
  proof (cases "connected w")
    case False
    then show ?thesis using assms Some f by (simp add: convert_route_def isConnected_def)
  next
    case True
    let ?k = "keyPrefix @ jid"
    let ?j = "new_job jid t1 t2 (route_jobData name buffer sz rid)"
    let ?w' = "w\<lparr> kv := (kv w)(?k \<mapsto> (?j, 86400)),
                  lists := (lists w)(queueKey := Entry jid # lists w queueKey),
                  oplog := oplog w @ [EvSet ?k ?j 86400, EvLPush queueKey (Entry jid)] \<rparr>"
    have w': "snd (convert_route w file rid jid t1 t2) = ?w'"
      using True Some f by (simp add: convert_route_def jobsvc_defs redis_defs Let_def)
    have notin: "Entry jid \<notin> set (lists w queueKey)"
      using assms by (auto simp: sys_inv_def)
    have wr: "writes_of k (oplog ?w') = (if k = ?k then [?j] else writes_of k (oplog w))" for k
      using assms(2) by (simp add: writes_of_append)
    have "sys_inv ?w'"
      unfolding sys_inv_def
    proof (intro conjI allI impI)
      fix k j t assume "kv ?w' k = Some (j, t)"
      then show "writes_of k (oplog ?w') \<noteq> []" "j = last (writes_of k (oplog ?w'))"
        using assms(1) unfolding wr by (auto simp: sys_inv_def split: if_splits)
    next
      fix k show "history_from k 0 (writes_of k (oplog ?w'))"
        using assms(1) new_job_route_ok unfolding wr by (auto simp: sys_inv_def)
    next
      fix jid' assume "Entry jid' \<in> set (lists ?w' queueKey)"
      then show "length (writes_of (keyPrefix @ jid') (oplog ?w')) = 1"
        using assms(1) unfolding wr by (auto simp: sys_inv_def)
    next
      show "distinct (lists ?w' queueKey)"
        using assms(1) notin by (simp add: sys_inv_def)
    qed
    then show ?thesis using w' by simp
  qed
qed

lemma updated_processing_ok:
  "rec_ok k 0 j0 \<Longrightarrow> rec_ok k 1 (updated_job j0 processing_update now)"
  by (simp add: rec_ok_def updated_job_def spread_def processing_update_def no_fields_def)

lemma updated_completed_ok:
  "rec_ok k 1 j1 \<Longrightarrow> rec_ok k 2 (updated_job j1 (completed_update e res) now)"
  by (simp add: rec_ok_def updated_job_def spread_def completed_update_def no_fields_def)

lemma updated_failed_ok:
  "rec_ok k 1 j1 \<Longrightarrow> rec_ok k 2 (updated_job j1 (failed_update e m) now)"
  by (simp add: rec_ok_def updated_job_def spread_def failed_update_def no_fields_def)

lemma inv_store_after:
  assumes "sys_inv w" "writes_of (keyPrefix @ jid) (oplog w) = [j0]"
    "Entry jid \<notin> set (lists w queueKey)" "js \<noteq> []"
    "history_from (keyPrefix @ jid) 0 (j0 # js)"
  shows "sys_inv (store_after w (keyPrefix @ jid) js)"
proof -
  let ?k = "keyPrefix @ jid"
  let ?w' = "store_after w ?k js"
  have wr: "writes_of k (oplog ?w') = (if k = ?k then j0 # js else writes_of k (oplog w))" for k
    using assms(2) by (simp add: store_after_def writes_of_append writes_of_sets)
  have kv': "kv ?w' = (kv w)(?k \<mapsto> (last js, 86400))"
    and l': "lists ?w' = lists w"
    by (simp_all add: store_after_def)
  show ?thesis
    unfolding sys_inv_def
  proof (intro conjI allI impI)
    fix k j t assume "kv ?w' k = Some (j, t)"
    then show "writes_of k (oplog ?w') \<noteq> []" "j = last (writes_of k (oplog ?w'))"
      using assms(1,4) unfolding wr kv' by (auto simp: sys_inv_def split: if_splits)
  next
    fix k show "history_from k 0 (writes_of k (oplog ?w'))"
      using assms(1,5) unfolding wr by (auto simp: sys_inv_def)
  next
    fix jid' assume "Entry jid' \<in> set (lists ?w' queueKey)"
    then show "length (writes_of (keyPrefix @ jid') (oplog ?w')) = 1"
      using assms(1,3) unfolding wr l' by (auto simp: sys_inv_def)
  next
    show "distinct (lists ?w' queueKey)"
      using assms(1) unfolding l' by (simp add: sys_inv_def)
  qed
qed

lemma inv_work:
  assumes "sys_inv w"
  shows "sys_inv (world_of (iteration e w))"
proof (cases "connected w \<and> lists w queueKey \<noteq> []")
  case False
  then have "world_of (iteration e w) = w"
    by (auto simp add: iteration_def iteration_try_def jobsvc_defs redis_defs)
  then show ?thesis using assms by simp
next
  case True
  let ?q = "lists w queueKey"
  obtain jid where en: "last ?q = Entry jid" by (cases "last ?q") auto
  let ?k = "keyPrefix @ jid"
  obtain xs where q: "?q = xs @ [Entry jid]"
    using True en by (metis append_butlast_last_id)
  have bl: "butlast ?q = xs" by (simp add: q)
  let ?w1 = "w\<lparr> lists := (lists w)(queueKey := xs),
                oplog := oplog w @ [EvBRPop queueKey (Entry jid)] \<rparr>"
  have mem: "Entry jid \<in> set ?q" by (simp add: q)
  have dq: "distinct ?q" using assms by (simp add: sys_inv_def)
  have l1: "lists ?w1 queueKey = xs" by simp
  have notin: "Entry jid \<notin> set (lists ?w1 queueKey)"
    using dq unfolding l1 by (simp add: q)
  have sub: "set xs \<subseteq> set ?q" and dxs: "distinct xs" using dq by (auto simp add: q)
  have wr1: "writes_of k (oplog ?w1) = writes_of k (oplog w)" for k
    by (simp add: writes_of_append)
  have inv1: "sys_inv ?w1"
    unfolding sys_inv_def
  proof (intro conjI allI impI)
    fix k j t assume "kv ?w1 k = Some (j, t)"
    then show "writes_of k (oplog ?w1) \<noteq> []" "j = last (writes_of k (oplog ?w1))"
      using assms unfolding wr1 by (auto simp: sys_inv_def)
  next
    fix k show "history_from k 0 (writes_of k (oplog ?w1))"
      using assms unfolding wr1 by (simp add: sys_inv_def)
  next
    fix jid' assume "Entry jid' \<in> set (lists ?w1 queueKey)"
    then have "Entry jid' \<in> set ?q" using sub unfolding l1 by blast
    then show "length (writes_of (keyPrefix @ jid') (oplog ?w1)) = 1"
      using assms unfolding wr1 by (simp add: sys_inv_def)
  next
    show "distinct (lists ?w1 queueKey)" unfolding l1 by (rule dxs)
  qed
  have len: "length (writes_of ?k (oplog w)) = 1"
    using assms mem by (simp add: sys_inv_def)
  then obtain j0 where h: "writes_of ?k (oplog w) = [j0]"
    by (cases "writes_of ?k (oplog w)") auto
  have ok0: "rec_ok ?k 0 j0"
    using assms h unfolding sys_inv_def by (metis history_from.simps(2))
  show ?thesis
  proof (cases "kv w ?k")
    case None
    then have "world_of (iteration e w) = ?w1"
      using True en bl by (simp add: iteration_def iteration_try_def jobsvc_defs redis_defs)
    then show ?thesis using inv1 by simp
  next
    case (Some r)
    obtain j t where r: "r = (j, t)" by (cases r) auto
    have "kv w ?k = Some (j, t)" using Some r by simp
    then have "j = last (writes_of ?k (oplog w))" using assms unfolding sys_inv_def by blast
    then have j: "j = j0" by (simp add: h)
    have idt: "id_text j0 = jid" using ok0 by (auto simp: rec_ok_def id_text_def)
    have it: "iteration_try e w = processJob e j0 ?w1"
      using True en bl Some r j by (simp add: iteration_try_def jobsvc_defs redis_defs)
    have c1: "connected ?w1" and k1: "kv ?w1 (keyPrefix @ id_text j0) = Some (j0, t)"
      using True Some r j idt by simp_all
    let ?j1 = "updated_job j0 processing_update (now_processing e)"
    have ok1: "rec_ok ?k 1 ?j1" using updated_processing_ok[OF ok0] .
    have good: "sys_inv w'" if "same_store w' (store_after ?w1 ?k js)" "js \<noteq> []"
      "history_from ?k 0 (j0 # js)" for w' js
      using inv_store_after[OF inv1 _ notin that(2,3)] h wr1 inv_same_store[OF that(1)] by simp
    from processJob_store[OF c1 k1, of e]
    consider (h) w' where "processJob e j0 ?w1 = Hung w'" "same_store w' (store_after ?w1 ?k [?j1])"
      | (c) res w' where "processJob e j0 ?w1 = Returned () w'"
          "same_store w' (store_after ?w1 ?k [?j1, updated_job ?j1 (completed_update e res) (now_completed e)])"
      | (f) m w' where "processJob e j0 ?w1 = Returned () w'"
          "same_store w' (store_after ?w1 ?k [?j1, updated_job ?j1 (failed_update e m) (now_failed e)])"
      unfolding idt by blast
    then show ?thesis
    proof cases
      case h
      have "sys_inv w'" using good[OF h(2)] ok0 ok1 by simp
      then show ?thesis using h(1) it by (simp add: iteration_def)
    next
      case c
      have "sys_inv w'" using good[OF c(2)] ok0 ok1 updated_completed_ok[OF ok1] by (simp add: numeral_2_eq_2)
      then show ?thesis using c(1) it by (simp add: iteration_def)
    next
      case f
      have "sys_inv w'" using good[OF f(2)] ok0 ok1 updated_failed_ok[OF ok1] by (simp add: numeral_2_eq_2)
      then show ?thesis using f(1) it by (simp add: iteration_def)
    qed
  qed
qed

lemma inv_step: "sys_inv w \<Longrightarrow> allowed a w \<Longrightarrow> sys_inv (step a w)"
  by (cases a) (simp_all add: inv_convert inv_work inv_expire inv_connection)

lemma inv_run: "sys_inv w \<Longrightarrow> valid as w \<Longrightarrow> sys_inv (run as w)"
  by (induction as arbitrary: w) (simp_all add: inv_step)

subsection \<open>Evaluation of concrete runs\<close>

lemmas worker_defs = processJob_def processJob_try_def pipeline_def stages_def attach_def
  bind_await_def await_def withTimeout_def iteration_def iteration_try_def
  writeFileSync_def readFileSync_def cleanupTempFiles_def cleanup_file_def temp_paths_def
  path_join_def id_text_def completed_update_def failed_update_def processing_update_def
  updated_job_def new_job_def route_jobData_def spread_def no_fields_def convert_route_def

lemma valid1: "valid acts1 world0"
  by (simp add: acts1_def world0_def)

lemma run1: "map status (writes_of (keyPrefix @ ''j1'') (oplog (run acts1 world0)))
   = [Some ''queued'', Some ''processing'', Some ''completed'']"
  by (simp add: acts1_def world0_def env_ok_def worker_defs jobsvc_defs redis_defs Let_def keyPrefix_def queueKey_def)

subsection \<open>Hanging and throwing\<close>

lemma attach_not_hung: "\<not> hung (attach e ib name temps om dims tb fb w)"
  by (simp add: attach_def bind_await_def await_def withTimeout_def Let_def
      split: promise.splits sum.splits)

lemma stages_hung:
  "hung (stages e ib name temps w) \<Longrightarrow> exif_read e = Pending \<or> jimp_read e = Pending"
  using attach_not_hung
  by (auto simp add: stages_def bind_await_def await_def withTimeout_def Let_def
      split: promise.splits sum.splits if_splits)

lemma pipeline_hung:
  "hung (pipeline e j ib name temps w) \<Longrightarrow> exif_read e = Pending \<or> jimp_read e = Pending"
  using stages_hung[of e ib name temps w]
  by (cases "stages e ib name temps w") (auto simp: pipeline_def split: prod.splits sum.splits)

lemma processJob_try_hung:
  "hung (processJob_try e j w) \<Longrightarrow> exif_read e = Pending \<or> jimp_read e = Pending"
  using pipeline_hung
  by (auto simp: processJob_try_def split: prod.splits sum.splits option.splits)

lemma processJob_hung:
  "hung (processJob e j w) \<Longrightarrow> exif_read e = Pending \<or> jimp_read e = Pending"
  using processJob_try_hung[of e j w]
  by (cases "processJob_try e j w") (auto simp: processJob_def split: prod.splits sum.splits)

lemma iteration_hung:
  "hung (iteration e w) \<Longrightarrow> exif_read e = Pending \<or> jimp_read e = Pending"
proof -
  assume h: "hung (iteration e w)"
  then have "hung (iteration_try e w)"
    by (cases "iteration_try e w") (auto simp: iteration_def)
  then show ?thesis using processJob_hung
    by (auto simp: iteration_try_def split: prod.splits sum.splits option.splits)
qed

lemma iteration_never_throws: "iteration e w \<noteq> Threw m w'"
  by (cases "iteration_try e w") (auto simp: iteration_def)

lemma start_never_throws: "start es w \<noteq> Threw m w'"
proof (induction es arbitrary: w)
  case Nil
  then show ?case by simp
next
  case (Cons e es)
  show ?case
    using Cons.IH iteration_never_throws[of e w]
    by (cases "iteration e w") auto
qed

subsection \<open>What processJob does to the files\<close>

lemma cleanup_file_files:
  "\<not> unlink_fails e f \<Longrightarrow> files (cleanup_file e f w) = (files w)(f := None)"
  by (auto simp add: cleanup_file_def)

lemma cleanup_file_other: "p \<noteq> f \<Longrightarrow> files (cleanup_file e f w) p = files w p"
  by (simp add: cleanup_file_def)

lemma cleanupTempFiles_other:
  "p \<notin> set fs \<Longrightarrow> files (cleanupTempFiles e fs w) p = files w p"
  unfolding cleanupTempFiles_def
  by (induction fs arbitrary: w) (simp_all add: cleanup_file_other)

lemma updateJobStatus_files: "files (snd (updateJobStatus w jid u now)) = files w"
  by (simp add: jobsvc_defs redis_defs Let_def split: option.splits)

lemma attach_files_other:
  "p \<notin> {a, b, c} \<Longrightarrow>
     files (world_of (attach e ib name [a, b, c] om dims tb fb w)) p = files w p"
  using cleanupTempFiles_other[where p=p and fs="[a, b, c]" and e=e]
  by (auto simp add: attach_def bind_await_def Let_def writeFileSync_def readFileSync_def
      split: option.splits sum.splits)

lemma stages_files_other:
  "p \<notin> {a, b, c} \<Longrightarrow> files (world_of (stages e ib name [a, b, c] w)) p = files w p"
  using attach_files_other[where p=p and a=a and b=b and c=c and e=e and ib=ib and name=name and w="writeFileSync w a ib"]
  by (auto simp add: stages_def bind_await_def Let_def writeFileSync_def
      split: option.splits sum.splits)

lemma cleanupTempFiles_files_at:
  "p \<notin> set fs \<or> \<not> unlink_fails e p \<Longrightarrow>
     files (cleanupTempFiles e fs w) p = (if p \<in> set fs then None else files w p)"
  unfolding cleanupTempFiles_def
proof (induction fs arbitrary: w)
  case Nil
  then show ?case by simp
next
  case (Cons f fs)
  have ih: "files (fold (cleanup_file e) fs (cleanup_file e f w)) p
          = (if p \<in> set fs then None else files (cleanup_file e f w) p)"
    using Cons.IH[of "cleanup_file e f w"] Cons.prems by auto
  show ?case
  proof (cases "p = f")
    case True
    then have "\<not> unlink_fails e f" using Cons.prems by auto
    then show ?thesis using ih True by (simp add: cleanup_file_files)
  next
    case False
    then show ?thesis using ih by (simp add: cleanup_file_other)
  qed
qed

lemma cleanup_file_kept:
  "unlink_fails e p \<Longrightarrow> files w p \<noteq> None \<Longrightarrow> files (cleanup_file e f w) p \<noteq> None"
  by (cases "p = f") (auto simp add: cleanup_file_def)

lemma cleanupTempFiles_kept:
  "unlink_fails e p \<Longrightarrow> files w p \<noteq> None \<Longrightarrow> files (cleanupTempFiles e fs w) p \<noteq> None"
  unfolding cleanupTempFiles_def
proof (induction fs arbitrary: w)
  case Nil
  then show ?case by simp
next
  case (Cons f fs)
  have "files (cleanup_file e f w) p \<noteq> None"
    using cleanup_file_kept[OF Cons.prems] .
  then show ?case using Cons.IH[OF Cons.prems(1)] by simp
qed

lemma attach_files_returned_at:
  "p \<notin> {a, b, c} \<or> \<not> unlink_fails e p \<Longrightarrow>
   attach e ib name [a, b, c] om dims tb fb w = Returned res w' \<Longrightarrow>
     files w' p = (if p \<in> {a, b, c} then None else files w p)"
  using cleanupTempFiles_files_at[where p=p and fs="[a, b, c]" and e=e]
  by (auto simp add: attach_def bind_await_def Let_def writeFileSync_def readFileSync_def
      split: option.splits sum.splits if_splits)

lemma attach_files_kept:
  "unlink_fails e p \<Longrightarrow> files w p \<noteq> None \<Longrightarrow>
     files (world_of (attach e ib name temps om dims tb fb w)) p \<noteq> None"
  using cleanupTempFiles_kept[where p=p and fs=temps and e=e]
  by (auto simp add: attach_def bind_await_def Let_def writeFileSync_def readFileSync_def
      split: option.splits sum.splits)

lemma stages_files_returned_at:
  "p \<notin> {a, b, c} \<or> \<not> unlink_fails e p \<Longrightarrow> stages e ib name [a, b, c] w = Returned res w' \<Longrightarrow>
     files w' p = (if p \<in> {a, b, c} then None else files w p)"
  using attach_files_returned_at[where p=p and a=a and b=b and c=c and e=e and ib=ib and name=name and w="writeFileSync w a ib" and res=res and w'=w']
  by (auto simp add: stages_def bind_await_def Let_def writeFileSync_def
      split: option.splits sum.splits if_splits)

lemma stages_original_kept:
  "unlink_fails e a \<Longrightarrow> files (world_of (stages e ib name [a, b, c] w)) a \<noteq> None"
  using attach_files_kept[where p=a and e=e and ib=ib and name=name and temps="[a, b, c]"
      and w="writeFileSync w a ib"]
  by (auto simp add: stages_def bind_await_def Let_def writeFileSync_def
      split: option.splits sum.splits)

lemma pipeline_files_at:
  assumes "p \<notin> {a, b, c} \<or> \<not> unlink_fails e p" "\<not> hung (pipeline e j ib name [a, b, c] w)"
  shows "files (world_of (pipeline e j ib name [a, b, c] w)) p
           = (if p \<in> {a, b, c} then None else files w p)"
proof -
  have as: "p \<notin> set [a, b, c] \<or> \<not> unlink_fails e p" using assms(1) by simp
  show ?thesis
  proof (cases "stages e ib name [a, b, c] w")
    case (Returned res w1)
    have f1: "files w1 p = (if p \<in> {a, b, c} then None else files w p)"
      using stages_files_returned_at[OF assms(1) Returned] .
    obtain r w2 where u: "updateJobStatus w1 (id_text j) (completed_update e res) (now_completed e) = (r, w2)"
      by force
    have f2: "files w2 = files w1" using updateJobStatus_files[of w1 "id_text j"] u
      by (metis snd_conv)
    show ?thesis
    proof (cases r)
      case (Inl m)
      then show ?thesis
        using Returned u f1 f2 cleanupTempFiles_files_at[OF as, where w=w2]
        by (simp add: pipeline_def)
    next
      case (Inr v)
      then show ?thesis using Returned u f1 f2 by (simp add: pipeline_def)
    qed
  next
    case (Threw m w1)
    have "files w1 q = files w q" if "q \<notin> {a, b, c}" for q
      using stages_files_other[OF that, where e=e and ib=ib and name=name and w=w] Threw by simp
    then show ?thesis using Threw cleanupTempFiles_files_at[OF as, where w=w1]
      by (simp add: pipeline_def)
  next
    case (Hung w1)
    then show ?thesis using assms(2) by (simp add: pipeline_def)
  qed
qed

lemma pipeline_original_kept:
  assumes "unlink_fails e a"
  shows "files (world_of (pipeline e j ib name [a, b, c] w)) a \<noteq> None"
proof (cases "stages e ib name [a, b, c] w")
  case (Returned res w1)
  have f1: "files w1 a \<noteq> None"
    using stages_original_kept[OF assms, where ib=ib and name=name and b=b and c=c and w=w] Returned
    by simp
  obtain r w2 where u: "updateJobStatus w1 (id_text j) (completed_update e res) (now_completed e) = (r, w2)"
    by force
  have f2: "files w2 = files w1" using updateJobStatus_files[of w1 "id_text j"] u
    by (metis snd_conv)
  show ?thesis
    using Returned u f1 f2 cleanupTempFiles_kept[OF assms, where w=w2 and fs="[a, b, c]"]
    by (cases r) (simp_all add: pipeline_def)
next
  case (Threw m w1)
  have f1: "files w1 a \<noteq> None"
    using stages_original_kept[OF assms, where ib=ib and name=name and b=b and c=c and w=w] Threw
    by simp
  then show ?thesis using Threw cleanupTempFiles_kept[OF assms f1, where fs="[a, b, c]"]
    by (simp add: pipeline_def)
next
  case (Hung w1)
  then show ?thesis
    using stages_original_kept[OF assms, where ib=ib and name=name and b=b and c=c and w=w]
    by (simp add: pipeline_def)
qed

lemma staged_enters_pipeline:
  assumes "staged e j w"
  shows "\<exists>ib fullName a b c w1.
           job_temp_paths e j = [a, b, c] \<and> files w1 = files w \<and>
           processJob_try e j w = pipeline e j ib (parse_name e fullName) [a, b, c] w1"
proof -
  obtain r w1 where u: "updateJobStatus w (id_text j) processing_update (now_processing e) = (r, w1)"
    by force
  have f1: "files w1 = files w" using updateJobStatus_files[of w "id_text j"] u by (metis snd_conv)
  obtain v ib fullName where r: "r = Inr v" and ib: "imageData j = Some ib"
    and fn: "originalName j = Some fullName"
    using u assms by (cases r) (auto simp: staged_def)
  let ?name = "parse_name e fullName"
  obtain a b c where t: "temp_paths e j ?name = [a, b, c]" by (simp add: temp_paths_def)
  have p: "processJob_try e j w = pipeline e j ib ?name [a, b, c] w1"
    using u r ib fn t by (simp add: processJob_try_def)
  have "job_temp_paths e j = [a, b, c]" using fn t by (simp add: job_temp_paths_def)
  then show ?thesis using f1 p by blast
qed

lemma processJob_try_files_at:
  assumes "p \<in> set (job_temp_paths e j) \<longrightarrow> \<not> unlink_fails e p"
    "\<not> hung (processJob_try e j w)"
  shows "files (world_of (processJob_try e j w)) p
           = (if staged e j w \<and> p \<in> set (job_temp_paths e j) then None else files w p)"
proof (cases "staged e j w")
  case False
  obtain r w1 where u: "updateJobStatus w (id_text j) processing_update (now_processing e) = (r, w1)"
    by force
  have f1: "files w1 = files w" using updateJobStatus_files[of w "id_text j"] u by (metis snd_conv)
  show ?thesis using False u f1
    by (auto simp add: staged_def processJob_try_def split: sum.splits option.splits)
next
  case True
  obtain ib fullName a b c w1 where t: "job_temp_paths e j = [a, b, c]"
    and f1: "files w1 = files w"
    and p: "processJob_try e j w = pipeline e j ib (parse_name e fullName) [a, b, c] w1"
    using staged_enters_pipeline[OF True] by blast
  have as: "p \<notin> {a, b, c} \<or> \<not> unlink_fails e p" using assms(1) t by auto
  have "files (world_of (pipeline e j ib (parse_name e fullName) [a, b, c] w1)) p
          = (if p \<in> {a, b, c} then None else files w1 p)"
    using pipeline_files_at[OF as] assms(2) unfolding p by blast
  then show ?thesis using True p f1 t by simp
qed

lemma processJob_files_same: "files (world_of (processJob e j w)) = files (world_of (processJob_try e j w))"
proof (cases "processJob_try e j w")
  case (Returned u w1)
  then show ?thesis by (simp add: processJob_def)
next
  case (Threw m w1)
  obtain r w2 where u: "updateJobStatus w1 (id_text j) (failed_update e m) (now_failed e) = (r, w2)"
    by force
  have "files w2 = files w1" using updateJobStatus_files[of w1 "id_text j"] u by (metis snd_conv)
  then show ?thesis using Threw u by (cases r) (simp_all add: processJob_def)
next
  case (Hung w1)
  then show ?thesis by (simp add: processJob_def)
qed

lemma processJob_files_at:
  assumes "p \<in> set (job_temp_paths e j) \<longrightarrow> \<not> unlink_fails e p" "\<not> hung (processJob e j w)"
  shows "files (world_of (processJob e j w)) p
           = (if staged e j w \<and> p \<in> set (job_temp_paths e j) then None else files w p)"
proof -
  have "hung (processJob e j w) = hung (processJob_try e j w)"
    by (cases "processJob_try e j w") (auto simp: processJob_def split: prod.splits sum.splits)
  then have "\<not> hung (processJob_try e j w)" using assms(2) by simp
  then show ?thesis using processJob_try_files_at[OF assms(1)] by (simp add: processJob_files_same)
qed

lemma processJob_original_kept:
  assumes "staged e j w" "unlink_fails e (hd (job_temp_paths e j))"
  shows "files (world_of (processJob e j w)) (hd (job_temp_paths e j)) \<noteq> None"
proof -
  obtain ib fullName a b c w1 where t: "job_temp_paths e j = [a, b, c]"
    and p: "processJob_try e j w = pipeline e j ib (parse_name e fullName) [a, b, c] w1"
    using staged_enters_pipeline[OF assms(1)] by blast
  have "unlink_fails e a" using assms(2) t by simp
  then have "files (world_of (pipeline e j ib (parse_name e fullName) [a, b, c] w1)) a \<noteq> None"
    by (rule pipeline_original_kept)
  then show ?thesis using p t by (simp add: processJob_files_same)
qed

subsection \<open>Timeouts and failures of stages\<close>

lemma show_nat_values:
  "show_nat 30000 = ''30000''" "show_nat 60000 = ''60000''" "show_nat 10000 = ''10000''"
  by (simp_all add: show_nat.simps char_of_def bit_0)

lemma stages_thumbnail_late:
  "fulfilled (exif_read e) \<Longrightarrow> fulfilled (jimp_read e) \<Longrightarrow> exceeds (thumbnail_conv e) 30000 \<Longrightarrow>
     \<exists>w'. stages e ib name temps w = Threw ''Thumbnail conversion timed out after 30000ms'' w'"
  by (auto simp add: stages_def bind_await_def await_def withTimeout_def fulfilled_def exceeds_def
      show_nat_values Let_def split: promise.splits sum.splits)

lemma stages_fullsize_late:
  "fulfilled (exif_read e) \<Longrightarrow> fulfilled (jimp_read e) \<Longrightarrow>
   fulfilled_within (thumbnail_conv e) 30000 \<Longrightarrow> exceeds (fullsize_conv e) 60000 \<Longrightarrow>
     \<exists>w'. stages e ib name temps w = Threw ''Full-size conversion timed out after 60000ms'' w'"
  by (auto simp add: stages_def bind_await_def await_def withTimeout_def fulfilled_def exceeds_def
      fulfilled_within_def show_nat_values Let_def split: promise.splits sum.splits)

lemma attach_thumb_write_late:
  "exceeds (exif_write_thumb e) 10000 \<Longrightarrow>
     \<exists>w'. attach e ib name temps om dims tb fb w
            = Threw ''Thumbnail metadata copy timed out after 10000ms'' w'"
  by (auto simp add: attach_def bind_await_def await_def withTimeout_def exceeds_def
      show_nat_values Let_def split: promise.splits sum.splits)

lemma attach_full_write_late:
  "fulfilled_within (exif_write_thumb e) 10000 \<Longrightarrow> exceeds (exif_write_full e) 10000 \<Longrightarrow>
     \<exists>w'. attach e ib name temps om dims tb fb w
            = Threw ''Full-size metadata copy timed out after 10000ms'' w'"
  by (auto simp add: attach_def bind_await_def await_def withTimeout_def exceeds_def
      fulfilled_within_def show_nat_values Let_def split: promise.splits sum.splits)

lemma stages_reaches_attach:
  "fulfilled (exif_read e) \<Longrightarrow> fulfilled (jimp_read e) \<Longrightarrow>
   fulfilled_within (thumbnail_conv e) 30000 \<Longrightarrow> fulfilled_within (fullsize_conv e) 60000 \<Longrightarrow>
     \<exists>om dims tb fb w1. stages e ib name temps w = attach e ib name temps om dims tb fb w1"
  apply (auto simp add: stages_def bind_await_def await_def withTimeout_def fulfilled_def
      fulfilled_within_def Let_def split: promise.splits sum.splits)
  by blast

lemma stages_thumb_write_late:
  "fulfilled (exif_read e) \<Longrightarrow> fulfilled (jimp_read e) \<Longrightarrow>
   fulfilled_within (thumbnail_conv e) 30000 \<Longrightarrow> fulfilled_within (fullsize_conv e) 60000 \<Longrightarrow>
   exceeds (exif_write_thumb e) 10000 \<Longrightarrow>
     \<exists>w'. stages e ib name temps w = Threw ''Thumbnail metadata copy timed out after 10000ms'' w'"
proof -
  assume a: "fulfilled (exif_read e)" "fulfilled (jimp_read e)"
    "fulfilled_within (thumbnail_conv e) 30000" "fulfilled_within (fullsize_conv e) 60000"
    and b: "exceeds (exif_write_thumb e) 10000"
  obtain om dims tb fb w1 where
    "stages e ib name temps w = attach e ib name temps om dims tb fb w1"
    using stages_reaches_attach[OF a] by blast
  then show ?thesis using attach_thumb_write_late[OF b] by simp
qed

lemma stages_full_write_late:
  "fulfilled (exif_read e) \<Longrightarrow> fulfilled (jimp_read e) \<Longrightarrow>
   fulfilled_within (thumbnail_conv e) 30000 \<Longrightarrow> fulfilled_within (fullsize_conv e) 60000 \<Longrightarrow>
   fulfilled_within (exif_write_thumb e) 10000 \<Longrightarrow> exceeds (exif_write_full e) 10000 \<Longrightarrow>
     \<exists>w'. stages e ib name temps w = Threw ''Full-size metadata copy timed out after 10000ms'' w'"
proof -
  assume a: "fulfilled (exif_read e)" "fulfilled (jimp_read e)"
    "fulfilled_within (thumbnail_conv e) 30000" "fulfilled_within (fullsize_conv e) 60000"
    and b: "fulfilled_within (exif_write_thumb e) 10000" "exceeds (exif_write_full e) 10000"
  obtain om dims tb fb w1 where
    "stages e ib name temps w = attach e ib name temps om dims tb fb w1"
    using stages_reaches_attach[OF a] by blast
  then show ?thesis using attach_full_write_late[OF b] by simp
qed

lemma stages_exif_fails:
  "exif_read e = Settles t (Inl m) \<Longrightarrow>
     \<exists>w'. stages e ib name temps w = Threw (''Metadata extraction failed: '' @ m) w'"
  by (simp add: stages_def await_def Let_def)

lemma stages_unbounded_hang:
  "exif_read e = Pending \<or> (fulfilled (exif_read e) \<and> jimp_read e = Pending) \<Longrightarrow>
     hung (stages e ib name temps w)"
  by (auto simp add: stages_def bind_await_def await_def fulfilled_def Let_def
      split: promise.splits sum.splits)

lemma processJob_try_enters_pipeline:
  assumes "connected w" "kv w (keyPrefix @ id_text j) = Some (j0, t)"
    "imageData j = Some ib" "originalName j = Some fullName"
  shows "\<exists>w1. processJob_try e j w
           = pipeline e j ib (parse_name e fullName) (temp_paths e j (parse_name e fullName)) w1"
proof -
  let ?w1 = "w\<lparr> kv := (kv w)(keyPrefix @ id_text j \<mapsto>
                        (updated_job j0 processing_update (now_processing e), 86400)),
                oplog := oplog w @ [EvSet (keyPrefix @ id_text j)
                        (updated_job j0 processing_update (now_processing e)) 86400] \<rparr>"
  have "processJob_try e j w
           = pipeline e j ib (parse_name e fullName) (temp_paths e j (parse_name e fullName)) ?w1"
    using updateJobStatus_present[OF assms(1,2)] assms(3,4) by (simp add: processJob_try_def)
  then show ?thesis by (rule exI)
qed

lemma stage_throw_reaches_try:
  assumes "connected w" "kv w (keyPrefix @ id_text j) = Some (j0, t)"
    "imageData j = Some ib" "originalName j = Some fullName"
    "\<And>w1. \<exists>w'. stages e ib (parse_name e fullName) (temp_paths e j (parse_name e fullName)) w1
                  = Threw msg w'"
  shows "\<exists>w2. processJob_try e j w = Threw msg w2"
proof -
  obtain w1 where p: "processJob_try e j w
       = pipeline e j ib (parse_name e fullName) (temp_paths e j (parse_name e fullName)) w1"
    using processJob_try_enters_pipeline[OF assms(1-4)] by blast
  obtain w' where "stages e ib (parse_name e fullName) (temp_paths e j (parse_name e fullName)) w1
                  = Threw msg w'"
    using assms(5) by blast
  then show ?thesis using p by (simp add: pipeline_def)
qed

lemma failure_gives_failed_record:
  assumes "connected w" "kv w (keyPrefix @ id_text j) = Some (j0, t)" "results j0 = None"
    "processJob_try e j w = Threw m w1"
  shows "job_failed_with e j w m"
proof -
  obtain w' where r: "processJob e j w = Returned () w'"
    and s: "same_store w' (store_after w (keyPrefix @ id_text j)
             [updated_job j0 processing_update (now_processing e),
              updated_job (updated_job j0 processing_update (now_processing e))
                (failed_update e m) (now_failed e)])"
    using processJob_failure_recorded[OF assms(1,2,4)] by blast
  have "kv w' (keyPrefix @ id_text j)
          = Some (updated_job (updated_job j0 processing_update (now_processing e))
                (failed_update e m) (now_failed e), 86400)"
    using s by (simp add: same_store_def store_after_def)
  then show ?thesis using r assms(3)
    by (simp add: job_failed_with_def updated_job_def spread_def failed_update_def
        processing_update_def no_fields_def)
qed

subsection \<open>The rounds of the loop\<close>

lemma start_step:
  "start (e # es) w =
     (if hung (iteration e w) then Hung (world_of (iteration e w))
      else start es (world_of (iteration e w)))"
  using iteration_never_throws[of e w]
  by (cases "iteration e w") auto

lemma start_runs_rounds:
  "\<forall>e \<in> set es. exif_read e \<noteq> Pending \<and> jimp_read e \<noteq> Pending \<Longrightarrow>
     start es w = Returned () (run (map Work es) w)"
proof (induction es arbitrary: w)
  case Nil
  then show ?case by simp
next
  case (Cons e es)
  have nh: "\<not> hung (iteration e w)" using iteration_hung[of e w] Cons.prems by auto
  have "start (e # es) w = start es (world_of (iteration e w))"
    using nh by (simp only: start_step if_False)
  then show ?case using Cons.IH Cons.prems by simp
qed

lemma getNextJob_store:
  "connected (snd (getNextJob w)) = connected w \<and> kv (snd (getNextJob w)) = kv w"
  by (simp add: jobsvc_defs redis_defs split: option.splits)

lemma iteration_processes_popped_job:
  "fst (getNextJob w) = Inr (Some j) \<Longrightarrow>
     iteration_try e w = processJob e j (snd (getNextJob w))"
  by (cases "getNextJob w") (simp add: iteration_try_def)

lemma iteration_records_failure:
  assumes "fst (getNextJob w) = Inr (Some j)" "connected w"
    "kv w (keyPrefix @ id_text j) = Some (j0, t)" "results j0 = None"
    "processJob_try e j (snd (getNextJob w)) = Threw msg w1"
  shows "iteration e w = Returned () (world_of (processJob e j (snd (getNextJob w)))) \<and>
         job_failed_with e j (snd (getNextJob w)) msg"
proof -
  let ?wp = "snd (getNextJob w)"
  have c: "connected ?wp" and k: "kv ?wp (keyPrefix @ id_text j) = Some (j0, t)"
    using assms(2,3) getNextJob_store[of w] by simp_all
  have f: "job_failed_with e j ?wp msg"
    using failure_gives_failed_record[OF c k assms(4,5)] .
  obtain w' where r: "processJob e j ?wp = Returned () w'"
    using processJob_failure_recorded[OF c k assms(5)] by blast
  have "iteration_try e w = processJob e j ?wp"
    using iteration_processes_popped_job[OF assms(1)] .
  then show ?thesis using r f by (simp add: iteration_def)
qed

subsection \<open>Consequences of the invariant\<close>

lemma rec_ok_exclusive: "rec_ok k n j \<Longrightarrow> exclusive j"
  by (auto simp add: rec_ok_def exclusive_def split: if_splits)

lemma history_exclusive: "history_from k n h \<Longrightarrow> j \<in> set h \<Longrightarrow> exclusive j"
  by (induction h arbitrary: n) (auto simp: rec_ok_exclusive)

lemma history_lifecycle:
  assumes "history_from k 0 h"
  shows "lifecycle (map status h)"
proof (cases h)
  case Nil
  then show ?thesis by (simp add: lifecycle_def)
next
  case (Cons a h1)
  note h = this
  show ?thesis
  proof (cases h1)
    case Nil
    then show ?thesis using assms h by (simp add: lifecycle_def rec_ok_def)
  next
    case (Cons b h2)
    note h1 = this
    show ?thesis
    proof (cases h2)
      case Nil
      then show ?thesis using assms h h1 by (simp add: lifecycle_def rec_ok_def)
    next
      case (Cons c h3)
      note h2 = this
      show ?thesis
      proof (cases h3)
        case Nil
        then show ?thesis using assms h h1 h2
          by (auto simp add: lifecycle_def rec_ok_def numeral_2_eq_2)
      next
        case (Cons d h4)
        then show ?thesis using assms h h1 h2
          by (simp add: rec_ok_def numeral_2_eq_2)
      qed
    qed
  qed
qed

lemma status_route_shows_last_write:
  assumes "sys_inv w" "status_route w jid = (200, Some j)"
  shows "j \<in> set (writes_of (keyPrefix @ jid) (oplog w))"
proof -
  obtain t where "kv w (keyPrefix @ jid) = Some (j, t)"
    using assms(2)
    by (auto simp add: status_route_def jobsvc_defs redis_defs split: if_splits option.splits)
  then have "writes_of (keyPrefix @ jid) (oplog w) \<noteq> []"
    and "j = last (writes_of (keyPrefix @ jid) (oplog w))"
    using assms(1) unfolding sys_inv_def by blast+
  then show ?thesis by simp
qed

subsection \<open>A failing metadata read does not hang\<close>

lemma pipeline_hung_iff:
  "hung (pipeline e j ib name temps w) = hung (stages e ib name temps w)"
  by (cases "stages e ib name temps w") (auto simp: pipeline_def split: prod.splits sum.splits)

lemma processJob_hung_iff: "hung (processJob e j w) = hung (processJob_try e j w)"
  by (cases "processJob_try e j w") (auto simp: processJob_def split: prod.splits sum.splits)

lemma processJob_try_hung_stage:
  "hung (processJob_try e j w) \<Longrightarrow> \<exists>ib name temps w1. hung (stages e ib name temps w1)"
  by (auto simp: processJob_try_def pipeline_hung_iff split: prod.splits sum.splits option.splits)

lemma exif_fails_not_hung:
  assumes "exif_read e = Settles t (Inl m)"
  shows "\<not> hung (processJob e j w)"
proof
  assume "hung (processJob e j w)"
  then obtain ib name temps w1 where h: "hung (stages e ib name temps w1)"
    using processJob_try_hung_stage processJob_hung_iff by blast
  obtain w' where "stages e ib name temps w1 = Threw (''Metadata extraction failed: '' @ m) w'"
    using stages_exif_fails[OF assms] by blast
  then show False using h by simp
qed

subsection \<open>The concrete inputs\<close>

lemmas env_defs = env_ok_def env_exif_never_def env_exif_slow_def env_exif_fails_def
  env_thumb_slow_def env_equator_def env_unlink_fails_def env_exif_fails_unlink_fails_def

lemma world1_simps:
  "connected world1"
  "kv world1 (keyPrefix @ ''j1'') = Some (job1, 86400)"
  "lists world1 queueKey = [Entry ''j1'']"
  "files world1 = Map.empty"
  by (simp_all add: world1_def job1_def world0_def jobsvc_defs redis_defs Let_def)

lemma job1_simps:
  "id_text job1 = ''j1''" "results job1 = None" "imageData job1 = Some [1, 2, 3]"
  "originalName job1 = Some ''a.jpg''" "status job1 = Some ''queued''" "error job1 = None"
  by (simp_all add: job1_def id_text_def new_job_def route_jobData_def spread_def no_fields_def)

lemma world2_simps:
  "connected world2"
  "fst (getNextJob world2) = Inr (Some job1)"
  "kv world2 (keyPrefix @ ''j1'') = Some (job1, 86400)"
  by (simp_all add: world2_def job1_def world0_def convert_route_def jobsvc_defs redis_defs Let_def
      keyPrefix_def queueKey_def)

section \<open>The claims\<close>

text \<open>
  C1, amended. \<^verbatim>\<open>updateJobStatus\<close> has no guard on the current status: on an existing
  record the stored status is the one the update carries, and the old one when the update
  carries none. In every run of the system (requests to \<^verbatim>\<open>POST /convert\<close> with fresh
  identifiers, rounds of the worker, expiry of records, changes of the connection) the
  statuses written under the key of one job are an initial part of
  queued, processing, completed or of queued, processing, failed; no write follows a
  terminal status.
\<close>

theorem status_writes_follow_lifecycle:
  "(connected w \<and> kv w (keyPrefix @ jid) = Some (j, t) \<longrightarrow>
      map_option (status \<circ> fst) (kv (snd (updateJobStatus w jid u now)) (keyPrefix @ jid))
        = Some (override (status j) (status u))) \<and>
   (valid as world0 \<longrightarrow>
      lifecycle (map status (writes_of (keyPrefix @ jid') (oplog (run as world0)))))"
proof -
  have a: "map_option (status \<circ> fst) (kv (snd (updateJobStatus w jid u now)) (keyPrefix @ jid))
        = Some (override (status j) (status u))"
    if "connected w" "kv w (keyPrefix @ jid) = Some (j, t)"
    using updateJobStatus_present[OF that] by (simp add: updated_job_def spread_def)
  have b: "lifecycle (map status (writes_of (keyPrefix @ jid') (oplog (run as world0))))"
    if "valid as world0"
  proof -
    have "sys_inv (run as world0)" using inv_run[OF inv_world0 that] .
    then have "history_from (keyPrefix @ jid') 0 (writes_of (keyPrefix @ jid') (oplog (run as world0)))"
      by (simp add: sys_inv_def)
    then show ?thesis by (rule history_lifecycle)
  qed
  show ?thesis using a b by blast
qed

text \<open>
  An instance of the theorem: a job is created and one round of the worker completes it.
\<close>

theorem status_writes_follow_lifecycle_witness:
  "valid acts1 world0 \<and>
   map status (writes_of (keyPrefix @ ''j1'') (oplog (run acts1 world0)))
     = [Some ''queued'', Some ''processing'', Some ''completed''] \<and>
   lifecycle (map status (writes_of (keyPrefix @ ''j1'') (oplog (run acts1 world0)))) \<and>
   map_option (status \<circ> fst)
     (kv (snd (updateJobStatus world1 ''j1'' processing_update ''t3'')) (keyPrefix @ ''j1''))
     = Some (Some ''processing'')"
proof -
  have v: "valid acts1 world0" by (rule valid1)
  have r: "map status (writes_of (keyPrefix @ ''j1'') (oplog (run acts1 world0)))
     = [Some ''queued'', Some ''processing'', Some ''completed'']" by (rule run1)
  show ?thesis
    using v r status_writes_follow_lifecycle[of world1 "''j1''" job1 86400 processing_update "''t3''" acts1 "''j1''"]
    by (simp add: world1_simps job1_simps processing_update_def no_fields_def)
qed

text \<open>
  C1 as stated fails for the update operation: after that run the record of job j1 is
  \<^verbatim>\<open>completed\<close>, and \<^verbatim>\<open>updateJobStatus\<close> with \<^verbatim>\<open>{ status: 'processing' }\<close> takes it
  back to \<^verbatim>\<open>processing\<close>.
\<close>

theorem update_leaves_terminal_state_counterexample:
  "map_option (status \<circ> fst) (kv world_done (keyPrefix @ ''j1'')) = Some (Some ''completed'') \<and>
   map_option (status \<circ> fst)
     (kv (snd (updateJobStatus world_done ''j1'' processing_update ''t9'')) (keyPrefix @ ''j1''))
     = Some (Some ''processing'')"
  by (simp add: world_done_def acts1_def world0_def env_ok_def worker_defs jobsvc_defs redis_defs
      Let_def keyPrefix_def queueKey_def)

text \<open>
  C2. In every run of the system, every record ever written to the store, and so every
  record shown by \<^verbatim>\<open>GET /status/:jobId\<close>, has \<^verbatim>\<open>results\<close> if and only if its status is
  \<^verbatim>\<open>completed\<close> and \<^verbatim>\<open>error\<close> if and only if its status is \<^verbatim>\<open>failed\<close>.
\<close>

theorem results_and_error_exclusive:
  assumes "valid as world0"
  shows "(\<forall>k. \<forall>j \<in> set (writes_of k (oplog (run as world0))). exclusive j) \<and>
         (\<forall>jid j. status_route (run as world0) jid = (200, Some j) \<longrightarrow> exclusive j)"
proof -
  have i: "sys_inv (run as world0)" using inv_run[OF inv_world0 assms] .
  then have h: "history_from k 0 (writes_of k (oplog (run as world0)))" for k
    by (simp add: sys_inv_def)
  have a: "exclusive j" if "j \<in> set (writes_of k (oplog (run as world0)))" for k j
    using history_exclusive[OF h that] .
  have b: "exclusive j" if "status_route (run as world0) jid = (200, Some j)" for jid j
    using a status_route_shows_last_write[OF i that] by blast
  show ?thesis using a b by blast
qed

text \<open>
  An instance: after a job is created and completed, the status route shows a completed
  record with results and without error.
\<close>

theorem results_and_error_exclusive_witness:
  "valid acts1 world0 \<and>
   (\<exists>j. status_route (run acts1 world0) ''j1'' = (200, Some j) \<and>
        status j = Some ''completed'' \<and> results j \<noteq> None \<and> error j = None \<and> exclusive j)"
proof -
  have v: "valid acts1 world0" by (rule valid1)
  have "\<exists>j. status_route (run acts1 world0) ''j1'' = (200, Some j) \<and>
        status j = Some ''completed'' \<and> results j \<noteq> None \<and> error j = None"
    by (simp add: status_route_def acts1_def world0_def env_ok_def worker_defs jobsvc_defs redis_defs
      Let_def keyPrefix_def queueKey_def)
  then show ?thesis using v results_and_error_exclusive[OF v] by blast
qed



text \<open>
  C4, amended. The thumbnail conversion (30 seconds), the full-size conversion
  (60 seconds) and each of the two metadata writes (10 seconds) are time-bounded: for a
  job whose record is in a connected store, the first of these stages that takes longer
  than its bound, or never settles, makes the job \<^verbatim>\<open>failed\<close> with the message of that
  timeout and without results. The metadata read and the decoding are awaited without a
  bound: when one of them never settles, \<^verbatim>\<open>processJob\<close> never returns.
\<close>

theorem bounded_stages_time_out:
  assumes "connected w" "kv w (keyPrefix @ id_text j) = Some (j0, t)" "results j0 = None"
    "imageData j \<noteq> None" "originalName j \<noteq> None"
  shows
    "(fulfilled (exif_read e) \<and> fulfilled (jimp_read e) \<and> exceeds (thumbnail_conv e) 30000
        \<longrightarrow> job_failed_with e j w ''Thumbnail conversion timed out after 30000ms'') \<and>
     (fulfilled (exif_read e) \<and> fulfilled (jimp_read e) \<and>
      fulfilled_within (thumbnail_conv e) 30000 \<and> exceeds (fullsize_conv e) 60000
        \<longrightarrow> job_failed_with e j w ''Full-size conversion timed out after 60000ms'') \<and>
     (fulfilled (exif_read e) \<and> fulfilled (jimp_read e) \<and>
      fulfilled_within (thumbnail_conv e) 30000 \<and> fulfilled_within (fullsize_conv e) 60000 \<and>
      exceeds (exif_write_thumb e) 10000
        \<longrightarrow> job_failed_with e j w ''Thumbnail metadata copy timed out after 10000ms'') \<and>
     (fulfilled (exif_read e) \<and> fulfilled (jimp_read e) \<and>
      fulfilled_within (thumbnail_conv e) 30000 \<and> fulfilled_within (fullsize_conv e) 60000 \<and>
      fulfilled_within (exif_write_thumb e) 10000 \<and> exceeds (exif_write_full e) 10000
        \<longrightarrow> job_failed_with e j w ''Full-size metadata copy timed out after 10000ms'') \<and>
     (exif_read e = Pending \<or> (fulfilled (exif_read e) \<and> jimp_read e = Pending)
        \<longrightarrow> hung (processJob e j w))"
proof -
  obtain ib fullName where ib: "imageData j = Some ib" and fn: "originalName j = Some fullName"
    using assms(4,5) by auto
  note reach = stage_throw_reaches_try[OF assms(1,2) ib fn]
  note fail = failure_gives_failed_record[OF assms(1-3)]
  have a: "job_failed_with e j w ''Thumbnail conversion timed out after 30000ms''"
    if "fulfilled (exif_read e)" "fulfilled (jimp_read e)" "exceeds (thumbnail_conv e) 30000"
    using reach[OF stages_thumbnail_late[OF that]] fail by blast
  have b: "job_failed_with e j w ''Full-size conversion timed out after 60000ms''"
    if "fulfilled (exif_read e)" "fulfilled (jimp_read e)"
      "fulfilled_within (thumbnail_conv e) 30000" "exceeds (fullsize_conv e) 60000"
    using reach[OF stages_fullsize_late[OF that]] fail by blast
  have c: "job_failed_with e j w ''Thumbnail metadata copy timed out after 10000ms''"
    if "fulfilled (exif_read e)" "fulfilled (jimp_read e)"
      "fulfilled_within (thumbnail_conv e) 30000" "fulfilled_within (fullsize_conv e) 60000"
      "exceeds (exif_write_thumb e) 10000"
    using reach[OF stages_thumb_write_late[OF that]] fail by blast
  have d: "job_failed_with e j w ''Full-size metadata copy timed out after 10000ms''"
    if "fulfilled (exif_read e)" "fulfilled (jimp_read e)"
      "fulfilled_within (thumbnail_conv e) 30000" "fulfilled_within (fullsize_conv e) 60000"
      "fulfilled_within (exif_write_thumb e) 10000" "exceeds (exif_write_full e) 10000"
    using reach[OF stages_full_write_late[OF that]] fail by blast
  have h: "hung (processJob e j w)"
    if "exif_read e = Pending \<or> (fulfilled (exif_read e) \<and> jimp_read e = Pending)"
  proof -
    obtain w1 where p: "processJob_try e j w
       = pipeline e j ib (parse_name e fullName) (temp_paths e j (parse_name e fullName)) w1"
      using processJob_try_enters_pipeline[OF assms(1,2) ib fn] by blast
    have "hung (stages e ib (parse_name e fullName) (temp_paths e j (parse_name e fullName)) w1)"
      using stages_unbounded_hang[OF that] .
    then have "hung (processJob_try e j w)"
      unfolding p
      by (cases "stages e ib (parse_name e fullName) (temp_paths e j (parse_name e fullName)) w1")
        (simp_all add: pipeline_def)
    then show ?thesis
      by (cases "processJob_try e j w") (simp_all add: processJob_def)
  qed
  show ?thesis using a b c d h by blast
qed

text \<open>
  An instance: a thumbnail conversion of 45 seconds fails the job; a metadata read that
  never settles leaves \<^verbatim>\<open>processJob\<close> waiting.
\<close>

theorem bounded_stages_time_out_witness:
  "connected world1 \<and> kv world1 (keyPrefix @ id_text job1) = Some (job1, 86400) \<and>
   exceeds (thumbnail_conv env_thumb_slow) 30000 \<and>
   job_failed_with env_thumb_slow job1 world1 ''Thumbnail conversion timed out after 30000ms'' \<and>
   hung (processJob env_exif_never job1 world1)"
proof -
  have h: "connected world1" "kv world1 (keyPrefix @ id_text job1) = Some (job1, 86400)"
    "results job1 = None" "imageData job1 \<noteq> None" "originalName job1 \<noteq> None"
    by (simp_all add: world1_simps job1_simps)
  have e: "fulfilled (exif_read env_thumb_slow)" "fulfilled (jimp_read env_thumb_slow)"
    "exceeds (thumbnail_conv env_thumb_slow) 30000" "exif_read env_exif_never = Pending"
    by (simp_all add: env_defs fulfilled_def exceeds_def)
  show ?thesis
    using h e bounded_stages_time_out[OF h, of env_thumb_slow] bounded_stages_time_out[OF h, of env_exif_never]
    by simp
qed

text \<open>
  C4 as stated fails for the metadata read: when it never settles the job is never
  failed and its record stays \<^verbatim>\<open>processing\<close>; when it takes an hour the job is still
  completed.
\<close>

theorem unbounded_extraction_counterexample:
  "hung (processJob env_exif_never job1 world1) \<and>
   map_option (status \<circ> fst)
     (kv (world_of (processJob env_exif_never job1 world1)) (keyPrefix @ ''j1''))
     = Some (Some ''processing'') \<and>
   map_option (status \<circ> fst)
     (kv (world_of (processJob env_exif_slow job1 world1)) (keyPrefix @ ''j1''))
     = Some (Some ''completed'')"
  by (simp add: world1_def job1_def world0_def env_defs worker_defs jobsvc_defs redis_defs
      Let_def keyPrefix_def queueKey_def)

text \<open>
  C5, amended. On every path on which \<^verbatim>\<open>processJob\<close> ends (it returns or throws) the
  removal of each of the three temporary files of the job has been attempted once staging
  has begun: a path that is none of the three is as it was before, and each temporary
  path whose removal does not fail does not exist afterwards. In particular, when the
  metadata read fails, \<^verbatim>\<open>processJob\<close> ends and every temporary file whose removal does not
  fail is gone. A failing removal is caught and logged and that file stays: when the
  removal of the staged original fails, the file exists afterwards.
\<close>

theorem temp_files_removed_unless_unlink_fails:
  "(\<not> hung (processJob e j w) \<longrightarrow>
      (\<forall>p. (p \<in> set (job_temp_paths e j) \<longrightarrow> \<not> unlink_fails e p) \<longrightarrow>
           files (world_of (processJob e j w)) p
             = (if staged e j w \<and> p \<in> set (job_temp_paths e j) then None else files w p)))
   \<and> ((\<exists>t m. exif_read e = Settles t (Inl m)) \<longrightarrow>
         \<not> hung (processJob e j w) \<and>
         (staged e j w \<longrightarrow>
            (\<forall>p \<in> set (job_temp_paths e j).
               \<not> unlink_fails e p \<longrightarrow> files (world_of (processJob e j w)) p = None)))
   \<and> (staged e j w \<and> unlink_fails e (hd (job_temp_paths e j)) \<longrightarrow>
         files (world_of (processJob e j w)) (hd (job_temp_paths e j)) \<noteq> None)"
proof -
  have a: "files (world_of (processJob e j w)) p
             = (if staged e j w \<and> p \<in> set (job_temp_paths e j) then None else files w p)"
    if "\<not> hung (processJob e j w)" "p \<in> set (job_temp_paths e j) \<longrightarrow> \<not> unlink_fails e p" for p
    using processJob_files_at[OF that(2) that(1)] .
  have b: "\<not> hung (processJob e j w)" if "\<exists>t m. exif_read e = Settles t (Inl m)"
    using that exif_fails_not_hung by blast
  have c: "files (world_of (processJob e j w)) (hd (job_temp_paths e j)) \<noteq> None"
    if "staged e j w" "unlink_fails e (hd (job_temp_paths e j))"
    using processJob_original_kept[OF that] .
  show ?thesis using a b c by simp
qed

text \<open>
  An instance: the metadata read fails, and the original staged for it is gone; the job
  succeeds, and the thumbnail file is gone; every removal fails, and the original stays.
\<close>

theorem temp_files_removed_unless_unlink_fails_witness:
  "staged env_exif_fails job1 world1 \<and>
   job_temp_paths env_exif_fails job1
     = [''/app/temp/j1_original.jpg'', ''/app/temp/j1_a_thumb.avif'', ''/app/temp/j1_a.avif''] \<and>
   \<not> hung (processJob env_exif_fails job1 world1) \<and>
   files (world_of (processJob env_exif_fails job1 world1)) ''/app/temp/j1_original.jpg'' = None \<and>
   files (world_of (processJob env_ok job1 world1)) ''/app/temp/j1_a_thumb.avif'' = None \<and>
   files (world_of (processJob env_unlink_fails job1 world1)) ''/app/temp/j1_original.jpg'' \<noteq> None"
proof -
  have s: "staged env_exif_fails job1 world1" "staged env_ok job1 world1"
    "staged env_unlink_fails job1 world1"
    by (simp_all add: staged_def job1_simps updateJobStatus_present[OF world1_simps(1,2)])
  have t: "job_temp_paths env_exif_fails job1
     = [''/app/temp/j1_original.jpg'', ''/app/temp/j1_a_thumb.avif'', ''/app/temp/j1_a.avif'']"
    "job_temp_paths env_ok job1
     = [''/app/temp/j1_original.jpg'', ''/app/temp/j1_a_thumb.avif'', ''/app/temp/j1_a.avif'']"
    "job_temp_paths env_unlink_fails job1
     = [''/app/temp/j1_original.jpg'', ''/app/temp/j1_a_thumb.avif'', ''/app/temp/j1_a.avif'']"
    by (simp_all add: job_temp_paths_def job1_simps temp_paths_def path_join_def env_defs)
  have u: "\<not> unlink_fails env_exif_fails p" "\<not> unlink_fails env_ok p"
    "unlink_fails env_unlink_fails p" for p
    by (simp_all add: env_defs)
  have x: "\<exists>t m. exif_read env_exif_fails = Settles t (Inl m)" by (simp add: env_defs)
  have n: "\<not> hung (processJob env_ok job1 world1)"
    using processJob_hung[of env_ok job1 world1] by (auto simp: env_defs)
  show ?thesis
    using s t x n u temp_files_removed_unless_unlink_fails[of env_exif_fails job1 world1] temp_files_removed_unless_unlink_fails[of env_ok job1 world1]
      temp_files_removed_unless_unlink_fails[of env_unlink_fails job1 world1]
    by (simp add: world1_simps)
qed

text \<open>
  C5 as stated fails when the removal of a file fails: \<^verbatim>\<open>cleanupTempFiles\<close> catches the
  error, \<^verbatim>\<open>processJob\<close> returns with the job completed, and the three temporary files
  are still there; likewise the staged original stays after a failing metadata read.
\<close>

theorem failing_unlink_leaves_temp_files_counterexample:
  "staged env_unlink_fails job1 world1 \<and>
   processJob env_unlink_fails job1 world1
     = Returned () (world_of (processJob env_unlink_fails job1 world1)) \<and>
   map_option (status \<circ> fst)
     (kv (world_of (processJob env_unlink_fails job1 world1)) (keyPrefix @ ''j1''))
     = Some (Some ''completed'') \<and>
   files (world_of (processJob env_unlink_fails job1 world1)) ''/app/temp/j1_original.jpg''
     = Some [1, 2, 3] \<and>
   files (world_of (processJob env_unlink_fails job1 world1)) ''/app/temp/j1_a_thumb.avif''
     = Some [7, 1] \<and>
   files (world_of (processJob env_unlink_fails job1 world1)) ''/app/temp/j1_a.avif''
     = Some [8, 9, 1] \<and>
   map_option (status \<circ> fst)
     (kv (world_of (processJob env_exif_fails_unlink_fails job1 world1)) (keyPrefix @ ''j1''))
     = Some (Some ''failed'') \<and>
   files (world_of (processJob env_exif_fails_unlink_fails job1 world1))
     ''/app/temp/j1_original.jpg'' = Some [1, 2, 3]"
  by (simp add: staged_def world1_def job1_def world0_def env_defs worker_defs jobsvc_defs
      redis_defs Let_def keyPrefix_def queueKey_def)

text \<open>
  C6, amended. With a connected store, \<^verbatim>\<open>updateJobStatus\<close> on an existing record
  returns and stores the record with the given fields merged over it and \<^verbatim>\<open>updatedAt\<close>
  set to the current time, with an expiry of 24 hours, and changes no other key. On a
  record that is absent when \<^verbatim>\<open>updateJobStatus\<close> reads it, it throws
  \<^verbatim>\<open>Failed to update job status: Job <id> not found\<close> and leaves the store as it was.
  A deletion by another client between the read and the write is not noticed: the call
  succeeds and stores the merged record again.
\<close>

theorem updateJobStatus_merges_or_not_found:
  assumes "connected w"
  shows "(\<forall>j ttl. kv w (keyPrefix @ jid) = Some (j, ttl) \<longrightarrow>
           (\<exists>w'. updateJobStatus w jid u now
                    = (Inr ((spread j u)\<lparr> updatedAt := Some now \<rparr>), w') \<and>
                 kv w' = (kv w)(keyPrefix @ jid \<mapsto>
                            ((spread j u)\<lparr> updatedAt := Some now \<rparr>, 86400))) \<and>
           (\<exists>w'. updateJobStatus_between (deleted_by_other jid) w jid u now
                    = (Inr ((spread j u)\<lparr> updatedAt := Some now \<rparr>), w') \<and>
                 kv w' (keyPrefix @ jid)
                    = Some ((spread j u)\<lparr> updatedAt := Some now \<rparr>, 86400)))
       \<and> (kv w (keyPrefix @ jid) = None \<longrightarrow>
            updateJobStatus w jid u now =
              (Inl (''Failed to update job status: Job '' @ jid @ '' not found''), w))"
  using assms
  by (auto simp add: jobsvc_defs redis_defs updated_job_def Let_def deleted_by_other_def)

text \<open>
  An instance: the update to \<^verbatim>\<open>processing\<close> of a stored job, and the same update when
  the store is empty.
\<close>

theorem updateJobStatus_merges_or_not_found_witness:
  "connected world1 \<and>
   fst (updateJobStatus world1 ''j1'' processing_update ''t3'')
     = Inr ((spread job1 processing_update)\<lparr> updatedAt := Some ''t3'' \<rparr>) \<and>
   updateJobStatus world0 ''j1'' processing_update ''t3''
     = (Inl ''Failed to update job status: Job j1 not found'', world0)"
proof -
  have c: "connected world1" and c0: "connected world0"
    by (simp_all add: world1_simps world0_def)
  have k0: "kv world0 (keyPrefix @ ''j1'') = None" by (simp add: world0_def)
  show ?thesis
    using c k0
      updateJobStatus_merges_or_not_found[OF c, of "''j1''" processing_update "''t3''"]
      updateJobStatus_merges_or_not_found[OF c0, of "''j1''" processing_update "''t3''"]
    by (auto simp: world1_simps)
qed

text \<open>
  C6 as stated fails for a record deleted between the read and the write inside
  \<^verbatim>\<open>updateJobStatus\<close>: the record is gone when the write happens, yet the call returns
  the merged record and the record is in the store again.
\<close>

theorem update_after_concurrent_delete_counterexample:
  "kv (deleted_by_other ''j1'' world1) (keyPrefix @ ''j1'') = None \<and>
   fst (updateJobStatus_between (deleted_by_other ''j1'') world1 ''j1'' processing_update ''t3'')
     = Inr (updated_job job1 processing_update ''t3'') \<and>
   map_option (status \<circ> fst)
     (kv (snd (updateJobStatus_between (deleted_by_other ''j1'') world1 ''j1''
                 processing_update ''t3'')) (keyPrefix @ ''j1''))
     = Some (Some ''processing'')"
  by (simp add: world1_simps jobsvc_defs redis_defs Let_def deleted_by_other_def updated_job_def
      spread_def processing_update_def no_fields_def)

text \<open>
  C7. With a connected store \<^verbatim>\<open>createJob\<close> first stores the record and then pushes
  the queue entry: the store receives the write of the record and then the push, in this
  order; in the world between the two the record is stored and the queue is as before.
  Without a connection \<^verbatim>\<open>createJob\<close> changes nothing.
\<close>

theorem createJob_stores_before_push:
  "(connected w \<longrightarrow>
     (\<exists>w1 w2. redis_set w (keyPrefix @ jid) (new_job jid t1 t2 jobData) 86400 = (Inr (), w1) \<and>
        lpush w1 queueKey (Entry jid) = (Inr (), w2) \<and>
        createJob w jid t1 t2 jobData = (Inr (new_job jid t1 t2 jobData), w2) \<and>
        kv w1 (keyPrefix @ jid) = Some (new_job jid t1 t2 jobData, 86400) \<and>
        lists w1 queueKey = lists w queueKey \<and>
        lists w2 queueKey = Entry jid # lists w queueKey \<and>
        oplog w2 = oplog w @ [EvSet (keyPrefix @ jid) (new_job jid t1 t2 jobData) 86400,
                              EvLPush queueKey (Entry jid)]))
   \<and> (\<not> connected w \<longrightarrow> snd (createJob w jid t1 t2 jobData) = w)"
  by (simp add: jobsvc_defs redis_defs Let_def)

text \<open>
  An instance: the commands that the empty store receives from one \<^verbatim>\<open>createJob\<close>.
\<close>

theorem createJob_stores_before_push_witness:
  "connected world0 \<and>
   oplog (snd (createJob world0 ''j1'' ''t1'' ''t2'' no_fields)) =
     [EvSet (keyPrefix @ ''j1'') (new_job ''j1'' ''t1'' ''t2'' no_fields) 86400,
      EvLPush queueKey (Entry ''j1'')]"
proof -
  have c: "connected world0" and l: "oplog world0 = []" by (simp_all add: world0_def)
  show ?thesis
    using c createJob_stores_before_push[of world0 "''j1''" "''t1''" "''t2''" no_fields]
    by (auto simp add: l)
qed

text \<open>
  C8. The code tests the two coordinates for truthiness, and the number 0 is falsy. For
  an original whose metadata holds latitude 0 and longitude 36.8 with both hemisphere
  references, the tag object has only the width and the height, both calls of the metadata
  writer receive only these two tags, and \<^verbatim>\<open>preservedMetadata.hasGPS\<close> of the completed
  job is \<^verbatim>\<open>false\<close>, although both coordinates are present.
\<close>

theorem gps_dropped_for_zero_coordinate:
  "om_equator ''GPSLatitude'' = Some (TNum 0) \<and>
   om_equator ''GPSLongitude'' = Some (TNum 36.8) \<and>
   map fst (metadataToPreserve om_equator 4000 3000) = [''ImageWidth'', ''ImageHeight''] \<and>
   map (map fst \<circ> snd) (toollog (world_of (processJob env_equator job1 world1)))
     = [[''ImageWidth'', ''ImageHeight''], [''ImageWidth'', ''ImageHeight'']] \<and>
   map_option (map_option (hasGPS \<circ> preservedMetadata) \<circ> results \<circ> fst)
     (kv (world_of (processJob env_equator job1 world1)) (keyPrefix @ ''j1''))
     = Some (Some False)"
  by (simp add: om_equator_def metadataToPreserve_def gps_tags_def timestamp_tags_def make_results_def
      world1_def job1_def world0_def env_defs worker_defs jobsvc_defs redis_defs
      Let_def keyPrefix_def queueKey_def)

text \<open>
  C9. A round of the worker loop never throws, and neither does the loop. After a round
  that returns, whatever happened in it, the loop goes on with the next round from the
  world that the round left; when in every round the metadata read and the decoding
  settle, the loop runs all its rounds, one after the other. A round that pops a job
  hands it to \<^verbatim>\<open>processJob\<close>. When the handling of that job throws an error and the
  record of the job is in the connected store, the round returns and the record is
  \<^verbatim>\<open>failed\<close> with the message of that error; the same holds of \<^verbatim>\<open>processJob\<close> alone.
\<close>

theorem worker_loop_survives_failures:
  "(\<forall>m w'. iteration e w \<noteq> Threw m w') \<and>
   (\<forall>m w'. start es w \<noteq> Threw m w') \<and>
   start (e # es) w =
     (if hung (iteration e w) then Hung (world_of (iteration e w))
      else start es (world_of (iteration e w))) \<and>
   ((\<forall>e \<in> set es. exif_read e \<noteq> Pending \<and> jimp_read e \<noteq> Pending) \<longrightarrow>
      start es w = Returned () (run (map Work es) w)) \<and>
   (fst (getNextJob w) = Inr (Some j) \<longrightarrow>
      iteration_try e w = processJob e j (snd (getNextJob w))) \<and>
   (fst (getNextJob w) = Inr (Some j) \<and> connected w \<and>
    kv w (keyPrefix @ id_text j) = Some (j0, t) \<and> results j0 = None \<and>
    (\<exists>w1. processJob_try e j (snd (getNextJob w)) = Threw msg w1) \<longrightarrow>
      iteration e w = Returned () (world_of (processJob e j (snd (getNextJob w)))) \<and>
      job_failed_with e j (snd (getNextJob w)) msg) \<and>
   (connected w \<and> kv w (keyPrefix @ id_text j) = Some (j0, t) \<and> results j0 = None \<and>
    (\<exists>w1. processJob_try e j w = Threw msg w1) \<longrightarrow> job_failed_with e j w msg)"
proof (intro conjI allI impI)
  fix m w' show "iteration e w \<noteq> Threw m w'" by (rule iteration_never_throws)
next
  fix m w' show "start es w \<noteq> Threw m w'" by (rule start_never_throws)
next
  show "start (e # es) w =
     (if hung (iteration e w) then Hung (world_of (iteration e w))
      else start es (world_of (iteration e w)))" by (rule start_step)
next
  assume "\<forall>e \<in> set es. exif_read e \<noteq> Pending \<and> jimp_read e \<noteq> Pending"
  then show "start es w = Returned () (run (map Work es) w)" by (rule start_runs_rounds)
next
  assume "fst (getNextJob w) = Inr (Some j)"
  then show "iteration_try e w = processJob e j (snd (getNextJob w))"
    by (rule iteration_processes_popped_job)
next
  assume a: "fst (getNextJob w) = Inr (Some j) \<and> connected w \<and>
    kv w (keyPrefix @ id_text j) = Some (j0, t) \<and> results j0 = None \<and>
    (\<exists>w1. processJob_try e j (snd (getNextJob w)) = Threw msg w1)"
  then obtain w1 where "processJob_try e j (snd (getNextJob w)) = Threw msg w1" by blast
  then have r: "iteration e w = Returned () (world_of (processJob e j (snd (getNextJob w)))) \<and>
         job_failed_with e j (snd (getNextJob w)) msg"
    using a iteration_records_failure by blast
  from r show "iteration e w = Returned () (world_of (processJob e j (snd (getNextJob w))))"
    by simp
  from r show "job_failed_with e j (snd (getNextJob w)) msg" by simp
next
  assume a: "connected w \<and> kv w (keyPrefix @ id_text j) = Some (j0, t) \<and> results j0 = None \<and>
    (\<exists>w1. processJob_try e j w = Threw msg w1)"
  then obtain w1 where "processJob_try e j w = Threw msg w1" by blast
  then show "job_failed_with e j w msg" using a failure_gives_failed_record by blast
qed

text \<open>
  An instance: two jobs are queued; the metadata read of the first round fails. The loop
  runs both rounds, the first job is failed with the message of the read and the second
  job is completed.
\<close>

theorem worker_loop_survives_failures_witness:
  "start [env_exif_fails, env_ok] world2
     = Returned () (run [Work env_exif_fails, Work env_ok] world2) \<and>
   map_option (status \<circ> fst)
     (kv (world_of (start [env_exif_fails, env_ok] world2)) (keyPrefix @ ''j1''))
     = Some (Some ''failed'') \<and>
   map_option (error \<circ> fst)
     (kv (world_of (start [env_exif_fails, env_ok] world2)) (keyPrefix @ ''j1''))
     = Some (Some ''Metadata extraction failed: File not found'') \<and>
   map_option (status \<circ> fst)
     (kv (world_of (start [env_exif_fails, env_ok] world2)) (keyPrefix @ ''j2''))
     = Some (Some ''completed'') \<and>
   iteration env_exif_fails world2
     = Returned () (world_of (processJob env_exif_fails job1 (snd (getNextJob world2)))) \<and>
   job_failed_with env_exif_fails job1 (snd (getNextJob world2))
     ''Metadata extraction failed: File not found''"
proof -
  have a: "\<forall>e \<in> set [env_exif_fails, env_ok]. exif_read e \<noteq> Pending \<and> jimp_read e \<noteq> Pending"
    by (simp add: env_defs)
  have s: "start [env_exif_fails, env_ok] world2
     = Returned () (run [Work env_exif_fails, Work env_ok] world2)"
    using a worker_loop_survives_failures[where es="[env_exif_fails, env_ok]" and w=world2] by simp
  have r: "map_option (status \<circ> fst)
       (kv (run [Work env_exif_fails, Work env_ok] world2) (keyPrefix @ ''j1''))
       = Some (Some ''failed'')"
    "map_option (error \<circ> fst)
       (kv (run [Work env_exif_fails, Work env_ok] world2) (keyPrefix @ ''j1''))
       = Some (Some ''Metadata extraction failed: File not found'')"
    "map_option (status \<circ> fst)
       (kv (run [Work env_exif_fails, Work env_ok] world2) (keyPrefix @ ''j2''))
       = Some (Some ''completed'')"
    by (simp_all add: world2_def world0_def env_defs worker_defs jobsvc_defs redis_defs
        Let_def keyPrefix_def queueKey_def)
  have t: "\<exists>w1. processJob_try env_exif_fails job1 (snd (getNextJob world2))
              = Threw ''Metadata extraction failed: File not found'' w1"
    by (simp add: world2_def job1_def world0_def env_defs worker_defs jobsvc_defs redis_defs
        Let_def keyPrefix_def queueKey_def)
  have i: "iteration env_exif_fails world2
     = Returned () (world_of (processJob env_exif_fails job1 (snd (getNextJob world2)))) \<and>
   job_failed_with env_exif_fails job1 (snd (getNextJob world2))
     ''Metadata extraction failed: File not found''"
    using t world2_simps job1_simps
      worker_loop_survives_failures[where e=env_exif_fails and w=world2 and j=job1 and ?j0.0=job1 and t=86400
           and msg="''Metadata extraction failed: File not found''"]
    by simp
  show ?thesis using s r i by simp
qed

text \<open>
  C10. \<^verbatim>\<open>createJob\<close> spreads the caller's \<^verbatim>\<open>jobData\<close> over the defaults. With a connected
  store it returns the record that it stored under the new identifier with an expiry of
  24 hours; each of \<^verbatim>\<open>id\<close>, \<^verbatim>\<open>status\<close>, \<^verbatim>\<open>createdAt\<close> and \<^verbatim>\<open>updatedAt\<close> holds the default
  (the new identifier, \<^verbatim>\<open>queued\<close>, the two readings of the clock) exactly when
  \<^verbatim>\<open>jobData\<close> lacks that key and the caller's value otherwise; every other field is that of
  \<^verbatim>\<open>jobData\<close>.
\<close>

theorem createJob_jobData_overrides_defaults:
  assumes "connected w"
  shows "\<exists>j w'. createJob w jid t1 t2 jobData = (Inr j, w') \<and>
     kv w' (keyPrefix @ jid) = Some (j, 86400) \<and>
     id' j = (case id' jobData of None \<Rightarrow> Some jid | Some v \<Rightarrow> Some v) \<and>
     status j = (case status jobData of None \<Rightarrow> Some ''queued'' | Some v \<Rightarrow> Some v) \<and>
     createdAt j = (case createdAt jobData of None \<Rightarrow> Some t1 | Some v \<Rightarrow> Some v) \<and>
     updatedAt j = (case updatedAt jobData of None \<Rightarrow> Some t2 | Some v \<Rightarrow> Some v) \<and>
     originalName j = originalName jobData \<and> imageData j = imageData jobData \<and>
     fileSize j = fileSize jobData \<and> requestId j = requestId jobData \<and>
     processingTime j = processingTime jobData \<and> results j = results jobData \<and>
     error j = error jobData"
  using assms
  by (simp add: jobsvc_defs redis_defs new_job_def spread_def no_fields_def Let_def
      override_def split: option.splits)

theorem createJob_jobData_overrides_defaults_witness:
  "connected world0 \<and>
   (\<exists>j w'. createJob world0 ''j1'' ''t1'' ''t2'' (no_fields\<lparr> status := Some ''completed'' \<rparr>)
              = (Inr j, w') \<and>
      kv w' (keyPrefix @ ''j1'') = Some (j, 86400) \<and>
      id' j = Some ''j1'' \<and> status j = Some ''completed'' \<and>
      createdAt j = Some ''t1'' \<and> updatedAt j = Some ''t2'')"
proof -
  have c: "connected world0" by (simp add: world0_def)
  show ?thesis
    using c createJob_jobData_overrides_defaults
      [OF c, of "''j1''" "''t1''" "''t2''" "no_fields\<lparr> status := Some ''completed'' \<rparr>"]
    by (auto simp: no_fields_def)
qed

end
